theory Spec2Isabelle
  imports Main "HOL-Library.Monad_Syntax"
begin

unbundle bit_operations_syntax

section \<open>Layers and regions (types.ts, classifier.ts)\<close>

text \<open>
  \<^verbatim>\<open>export type SyntaxLayer = "javascript" | "typescript" | "jsx" | "react";\<close>
\<close>

datatype SyntaxLayer = javascript | typescript | jsx | react

text \<open>
  \<^verbatim>\<open>interface ClassifiedRegion { start: number; end: number; layer: SyntaxLayer; }\<close>
  and \<^verbatim>\<open>interface RawRegion\<close>, which adds \<^verbatim>\<open>priority: number\<close>. Offsets are
  JavaScript numbers; the code computes them as \<^verbatim>\<open>end - 2\<close> or \<^verbatim>\<open>getStart() - 1\<close>,
  so they are integers here. The field \<^verbatim>\<open>end\<close> is called \<open>endp\<close>.
\<close>

record ClassifiedRegion =
  start :: int
  endp :: int
  layer :: SyntaxLayer

record RawRegion = ClassifiedRegion +
  priority :: int

text \<open>The table \<^verbatim>\<open>PRIORITY\<close>: higher number wins when regions overlap.\<close>

fun PRIORITY :: "SyntaxLayer \<Rightarrow> int" where
  "PRIORITY javascript = 1"
| "PRIORITY jsx = 2"
| "PRIORITY typescript = 3"
| "PRIORITY react = 4"

section \<open>The overlap resolver\<close>

text \<open>
  The two arrays \<^verbatim>\<open>positionMap\<close> and \<^verbatim>\<open>priorityMap\<close> of \<^verbatim>\<open>resolveOverlaps\<close>, both of
  length \<^verbatim>\<open>textLength\<close>, filled with \<^verbatim>\<open>null\<close> and \<^verbatim>\<open>0\<close>.
\<close>

type_synonym layerMaps = "SyntaxLayer option list \<times> int list"

text \<open>
  The body of the inner loop at offset \<open>i\<close>:
  \<^verbatim>\<open>if (region.priority > priorityMap[i]) { priorityMap[i] = ...; positionMap[i] = ...; }\<close>.
  Reading \<^verbatim>\<open>priorityMap[i]\<close> at a negative \<open>i\<close> gives \<^verbatim>\<open>undefined\<close>, and
  \<^verbatim>\<open>region.priority > undefined\<close> is false, so nothing is written there.
\<close>

definition paintCell :: "RawRegion \<Rightarrow> int \<Rightarrow> layerMaps \<Rightarrow> layerMaps" where
  "paintCell region i m =
     (case m of (positionMap, priorityMap) \<Rightarrow>
        if 0 \<le> i \<and> priority region > priorityMap ! nat i
        then (positionMap[nat i := Some (layer region)],
              priorityMap[nat i := priority region])
        else (positionMap, priorityMap))"

text \<open>
  The inner loop
  \<^verbatim>\<open>for (let i = region.start; i < region.end && i < textLength; i++)\<close>
  started at \<open>i\<close>.
\<close>

function paintFrom :: "RawRegion \<Rightarrow> nat \<Rightarrow> int \<Rightarrow> layerMaps \<Rightarrow> layerMaps" where
  "paintFrom region textLength i m =
     (if i < endp region \<and> i < int textLength
      then paintFrom region textLength (i + 1) (paintCell region i m)
      else m)"
  by pat_completeness auto
termination
  by (relation "measure (\<lambda>(region, textLength, i, m). nat (int textLength - i))") auto

declare paintFrom.simps [simp del]

definition paintRegion :: "nat \<Rightarrow> RawRegion \<Rightarrow> layerMaps \<Rightarrow> layerMaps" where
  "paintRegion textLength region m = paintFrom region textLength (start region) m"

text \<open>The outer loop \<^verbatim>\<open>for (const region of rawRegions)\<close> over the fresh arrays.\<close>

definition paintAll :: "RawRegion list \<Rightarrow> nat \<Rightarrow> layerMaps" where
  "paintAll rawRegions textLength =
     fold (paintRegion textLength) rawRegions
       (replicate textLength None, replicate textLength 0)"

text \<open>
  The state of the second loop: \<^verbatim>\<open>result\<close>, \<^verbatim>\<open>currentLayer\<close>, \<^verbatim>\<open>currentStart\<close>.
\<close>

record mergeState =
  result :: "ClassifiedRegion list"
  currentLayer :: "SyntaxLayer option"
  currentStart :: nat

text \<open>One iteration of \<^verbatim>\<open>for (let i = 0; i < textLength; i++)\<close>.\<close>

definition mergeStep :: "SyntaxLayer option list \<Rightarrow> nat \<Rightarrow> mergeState \<Rightarrow> mergeState" where
  "mergeStep positionMap i s =
     (let l = positionMap ! i in
      if l \<noteq> currentLayer s then
        s\<lparr>result :=
             (case currentLayer s of
                None \<Rightarrow> result s
              | Some cur \<Rightarrow>
                  result s @ [\<lparr>start = int (currentStart s), endp = int i, layer = cur\<rparr>]),
          currentLayer := l,
          currentStart := i\<rparr>
      else s)"

definition mergeLoop :: "SyntaxLayer option list \<Rightarrow> nat \<Rightarrow> mergeState" where
  "mergeLoop positionMap n =
     fold (mergeStep positionMap) [0..<n] \<lparr>result = [], currentLayer = None, currentStart = 0\<rparr>"

text \<open>The push after the loop, for the run that reaches the end of the text.\<close>

definition mergeRuns :: "SyntaxLayer option list \<Rightarrow> nat \<Rightarrow> ClassifiedRegion list" where
  "mergeRuns positionMap textLength =
     (let s = mergeLoop positionMap textLength in
      case currentLayer s of
        None \<Rightarrow> result s
      | Some cur \<Rightarrow>
          result s @ [\<lparr>start = int (currentStart s), endp = int textLength, layer = cur\<rparr>])"

definition resolveOverlaps :: "RawRegion list \<Rightarrow> nat \<Rightarrow> ClassifiedRegion list" where
  "resolveOverlaps rawRegions textLength =
     (if rawRegions = [] \<or> textLength = 0 then []
      else mergeRuns (fst (paintAll rawRegions textLength)) textLength)"

text \<open>
  The helper \<^verbatim>\<open>getLayerAt\<close> of classifier.test.ts:
  \<^verbatim>\<open>regions.find((r) => r.start <= position && r.end > position)?.layer ?? null\<close>.
\<close>

definition getLayerAt :: "ClassifiedRegion list \<Rightarrow> int \<Rightarrow> SyntaxLayer option" where
  "getLayerAt regions position =
     map_option layer (find (\<lambda>r. start r \<le> position \<and> endp r > position) regions)"


section \<open>The lexical bracket matcher\<close>

text \<open>
  \<^verbatim>\<open>sourceText[pos]\<close>: the character at an offset, \<^verbatim>\<open>undefined\<close> (here \<open>None\<close>) outside the
  text. A \<open>char\<close> stands for one code unit of the JavaScript string.
\<close>

definition charAt :: "string \<Rightarrow> int \<Rightarrow> char option" where
  "charAt sourceText pos =
     (if 0 \<le> pos \<and> pos < int (length sourceText) then Some (sourceText ! nat pos) else None)"

text \<open>
  \<^verbatim>\<open>findOpeningBracket\<close>: the loop \<^verbatim>\<open>while (pos > 0 && sourceText[pos] !== '<') pos--\<close>
  and the test after it, as one recursion on \<open>pos\<close>.
\<close>

function findOpeningBracket :: "string \<Rightarrow> int \<Rightarrow> int" where
  "findOpeningBracket sourceText pos =
     (if pos > 0 \<and> charAt sourceText pos \<noteq> Some CHR ''<''
      then findOpeningBracket sourceText (pos - 1)
      else if charAt sourceText pos = Some CHR ''<'' then pos else - 1)"
  by pat_completeness auto
termination
  by (relation "measure (\<lambda>(sourceText, pos). nat pos)") auto

declare findOpeningBracket.simps [simp del]

text \<open>
  The loop of \<^verbatim>\<open>findMatchingCloseBracket\<close>,
  \<^verbatim>\<open>while (pos < sourceText.length && depth > 0)\<close>, returning the final \<open>(depth, pos)\<close>.
\<close>

function closeBracketLoop :: "string \<Rightarrow> int \<Rightarrow> int \<Rightarrow> int \<times> int" where
  "closeBracketLoop sourceText depth pos =
     (if pos < int (length sourceText) \<and> depth > 0 then
        closeBracketLoop sourceText
          (if charAt sourceText pos = Some CHR ''<'' then depth + 1
           else if charAt sourceText pos = Some CHR ''>'' then depth - 1
           else depth)
          (pos + 1)
      else (depth, pos))"
  by pat_completeness auto
termination
  by (relation "measure (\<lambda>(sourceText, depth, pos). nat (int (length sourceText) - pos))") auto

declare closeBracketLoop.simps [simp del]

definition findMatchingCloseBracket :: "string \<Rightarrow> int \<Rightarrow> int" where
  "findMatchingCloseBracket sourceText openBracketPos =
     (case closeBracketLoop sourceText 1 (openBracketPos + 1) of
        (depth, pos) \<Rightarrow> if depth = 0 then pos - 1 else - 1)"

section \<open>Strings\<close>

text \<open>
  \<^verbatim>\<open>String.prototype.substring\<close>: both arguments are clamped to the string and swapped
  when the first is the larger.
\<close>

definition substring :: "string \<Rightarrow> int \<Rightarrow> int \<Rightarrow> string" where
  "substring s a b =
     (let a' = nat (min (max a 0) (int (length s)));
          b' = nat (min (max b 0) (int (length s)))
      in take (max a' b' - min a' b') (drop (min a' b') s))"

definition startsWith :: "string \<Rightarrow> string \<Rightarrow> bool" where
  "startsWith s p \<longleftrightarrow> take (length p) s = p"

fun includes_str :: "string \<Rightarrow> string \<Rightarrow> bool" where
  "includes_str [] p = (p = [])"
| "includes_str (c # cs) p = (startsWith (c # cs) p \<or> includes_str cs p)"

definition isUpperAZ :: "char \<Rightarrow> bool" where
  "isUpperAZ c \<longleftrightarrow> 65 \<le> (of_char c :: nat) \<and> (of_char c :: nat) \<le> 90"

definition isAlphaNum :: "char \<Rightarrow> bool" where
  "isAlphaNum c \<longleftrightarrow>
     (97 \<le> (of_char c :: nat) \<and> (of_char c :: nat) \<le> 122) \<or> isUpperAZ c \<or>
     (48 \<le> (of_char c :: nat) \<and> (of_char c :: nat) \<le> 57)"

text \<open>The class \<^verbatim>\<open>\s\<close> of a JavaScript regular expression, on code units below 256.\<close>

definition isWhiteSpace :: "char \<Rightarrow> bool" where
  "isWhiteSpace c \<longleftrightarrow> (of_char c :: nat) \<in> {9, 10, 11, 12, 13, 32, 160}"

text \<open>\<^verbatim>\<open>/^[A-Z][a-zA-Z0-9]*$/.test(name)\<close>\<close>

definition isPascalCase :: "string \<Rightarrow> bool" where
  "isPascalCase name = (case name of [] \<Rightarrow> False | c # cs \<Rightarrow> isUpperAZ c \<and> list_all isAlphaNum cs)"

text \<open>\<^verbatim>\<open>/^React\.use([A-Z]|$)/.test(callee)\<close>\<close>

definition isQualifiedHook :: "string \<Rightarrow> bool" where
  "isQualifiedHook callee \<longleftrightarrow>
     startsWith callee ''React.use'' \<and>
     (case drop 9 callee of [] \<Rightarrow> True | c # _ \<Rightarrow> isUpperAZ c)"

section \<open>The fixed name sets\<close>

definition REACT_HOOKS :: "string set" where
  "REACT_HOOKS = {''useState'', ''useEffect'', ''useContext'', ''useReducer'', ''useCallback'',
     ''useMemo'', ''useRef'', ''useImperativeHandle'', ''useLayoutEffect'', ''useDebugValue'',
     ''useDeferredValue'', ''useTransition'', ''useId'', ''useSyncExternalStore'',
     ''useInsertionEffect'', ''use''}"

definition REACT_TYPES :: "string set" where
  "REACT_TYPES = {''FC'', ''FunctionComponent'', ''ComponentType'', ''ComponentClass'',
     ''ElementType'', ''ExoticComponent'', ''ForwardRefExoticComponent'', ''MemoExoticComponent'',
     ''LazyExoticComponent'',
     ''ReactNode'', ''ReactElement'', ''ReactChild'', ''ReactFragment'', ''ReactPortal'',
     ''ReactText'',
     ''Element'', ''IntrinsicElements'',
     ''PropsWithChildren'', ''PropsWithRef'', ''ComponentProps'', ''ComponentPropsWithRef'',
     ''ComponentPropsWithoutRef'',
     ''HTMLAttributes'', ''SVGAttributes'', ''HTMLProps'', ''CSSProperties'', ''DOMAttributes'',
     ''AriaAttributes'',
     ''Ref'', ''RefObject'', ''MutableRefObject'', ''ForwardedRef'', ''LegacyRef'',
     ''RefCallback'', ''ElementRef'', ''ComponentRef'',
     ''SyntheticEvent'', ''ChangeEvent'', ''MouseEvent'', ''FormEvent'', ''KeyboardEvent'',
     ''FocusEvent'', ''DragEvent'', ''TouchEvent'', ''PointerEvent'', ''WheelEvent'',
     ''AnimationEvent'', ''TransitionEvent'', ''ClipboardEvent'', ''CompositionEvent'',
     ''UIEvent'',
     ''Dispatch'', ''SetStateAction'', ''ReducerState'', ''ReducerAction'',
     ''Context'', ''Provider'', ''Consumer'',
     ''Suspense'', ''SuspenseProps'', ''StrictMode'', ''Profiler'', ''ProfilerProps'',
     ''Fragment'',
     ''Key''}"

definition REACT_UTILS :: "string set" where
  "REACT_UTILS = {''memo'', ''forwardRef'', ''lazy'', ''createContext'', ''createRef'',
     ''cloneElement'', ''isValidElement'', ''createElement'', ''Children'', ''Fragment'',
     ''Suspense'', ''StrictMode'', ''Profiler''}"

definition REACT_JSX_ATTRIBUTES :: "string set" where
  "REACT_JSX_ATTRIBUTES = {''key'', ''ref''}"

definition REACT_DIRECTIVES :: "string set" where
  "REACT_DIRECTIVES = {''use client'', ''use server''}"

section \<open>The parser's interface\<close>

text \<open>
  The syntax tree comes from the TypeScript compiler, which is not part of this repository;
  the tree is therefore a parameter, with the observations the classifier makes of a node:
  \<^item> \<open>kind\<close>: the name of the node's \<^verbatim>\<open>SyntaxKind\<close>, so that \<^verbatim>\<open>ts.isCallExpression(node)\<close> is
    \<open>kind node = ''CallExpression''\<close>;
  \<^item> \<open>getFullStart\<close>, \<open>getStart\<close>, \<open>getEnd\<close>: the three offsets;
  \<^item> \<open>textOf\<close>: the field \<^verbatim>\<open>text\<close> of an identifier or a string literal;
  \<^item> \<open>isTypeOnly\<close>, \<open>flags\<close>: the fields of these names;
  \<^item> \<open>getChildren\<close>: kind and \<^verbatim>\<open>getStart()\<close> of every child that \<^verbatim>\<open>getChildren()\<close> lists,
    tokens included;
  \<^item> \<open>props\<close>: the child nodes in the order of \<^verbatim>\<open>ts.forEachChild\<close>, each with the name of
    the property that holds it (\<^verbatim>\<open>expression\<close>, \<^verbatim>\<open>typeArguments\<close>, ...); the elements of
    an array property carry the property's name one by one.
\<close>

datatype node = Node (kind: string) (getFullStart: int) (getStart: int) (getEnd: int)
  (textOf: string) (isTypeOnly: bool) (flags: nat) (getChildren: "(string \<times> int) list")
  (props: "(string \<times> node) list")

text \<open>
  A property that holds one node, \<^verbatim>\<open>node.expression\<close>: \<open>None\<close> is \<^verbatim>\<open>undefined\<close>.
\<close>

definition get :: "string \<Rightarrow> node \<Rightarrow> node option" where
  "get p n = map_option snd (find (\<lambda>qc. fst qc = p) (props n))"

text \<open>A property that holds an array of nodes, \<^verbatim>\<open>node.typeArguments\<close>.\<close>

definition getAll :: "string \<Rightarrow> node \<Rightarrow> node list" where
  "getAll p n = map snd (filter (\<lambda>qc. fst qc = p) (props n))"

definition forEachChild :: "node \<Rightarrow> node list" where
  "forEachChild n = map snd (props n)"

text \<open>
  \<^verbatim>\<open>node.getText(sourceFile)\<close> is
  \<^verbatim>\<open>sourceFile.text.substring(this.getStart(sourceFile), this.getEnd())\<close>.
\<close>

definition getText :: "string \<Rightarrow> node \<Rightarrow> string" where
  "getText sourceText n = substring sourceText (getStart n) (getEnd n)"

text \<open>\<^verbatim>\<open>ts.NodeFlags.Using\<close>; the classifier's comment gives its value.\<close>

definition NodeFlags_Using :: nat where
  "NodeFlags_Using = 4"

text \<open>
  The three functions of the module \<^verbatim>\<open>ts\<close> that the classifier calls.
  \<^verbatim>\<open>createSourceFile\<close> is called with the fixed arguments \<^verbatim>\<open>"temp.tsx"\<close>, \<^verbatim>\<open>Latest\<close>,
  \<^verbatim>\<open>true\<close>, \<^verbatim>\<open>TSX\<close> and the text; the comment scanners return the \<open>(pos, end)\<close> of each
  comment, the empty list for \<^verbatim>\<open>undefined\<close>.
\<close>

record ts_api =
  createSourceFile :: "string \<Rightarrow> node"
  getLeadingCommentRanges :: "string \<Rightarrow> int \<Rightarrow> (int \<times> int) list"
  getTrailingCommentRanges :: "string \<Rightarrow> int \<Rightarrow> (int \<times> int) list"


section \<open>The region collector\<close>

text \<open>
  What \<^verbatim>\<open>classifyDocument\<close> allocates for one call: the list \<^verbatim>\<open>rawRegions\<close> and the
  set \<^verbatim>\<open>enumNames\<close>.
\<close>

record traversal =
  rawRegions :: "RawRegion list"
  enumNames :: "string set"

definition addRegion :: "int \<Rightarrow> int \<Rightarrow> SyntaxLayer \<Rightarrow> traversal \<Rightarrow> traversal" where
  "addRegion s e l ctx =
     (if s < e
      then ctx\<lparr>rawRegions := rawRegions ctx @ [\<lparr>start = s, endp = e, layer = l, priority = PRIORITY l\<rparr>]\<rparr>
      else ctx)"

text \<open>
  A \<^verbatim>\<open>for ... of\<close> loop whose body may throw: reading a property of \<^verbatim>\<open>undefined\<close> is a
  \<^verbatim>\<open>TypeError\<close>, the value \<open>None\<close> of the model, and it ends the whole call.
\<close>

fun foldOpt :: "('a \<Rightarrow> 's \<Rightarrow> 's option) \<Rightarrow> 'a list \<Rightarrow> 's \<Rightarrow> 's option" where
  "foldOpt f [] s = Some s"
| "foldOpt f (x # xs) s = (case f x s of None \<Rightarrow> None | Some s' \<Rightarrow> foldOpt f xs s')"

text \<open>
  The block that the classifier repeats for every type-argument list:
  \<^verbatim>\<open>if (node.typeArguments && node.typeArguments.length > 0) { ... }\<close>, with the backward
  scan from the first type argument and the forward scan from the bracket found.
\<close>

definition markTypeArguments :: "string \<Rightarrow> node list \<Rightarrow> traversal \<Rightarrow> traversal" where
  "markTypeArguments sourceText typeArguments ctx =
     (case typeArguments of
        [] \<Rightarrow> ctx
      | firstTypeArg # _ \<Rightarrow>
          let openBracket = findOpeningBracket sourceText (getStart firstTypeArg - 1) in
          if openBracket \<noteq> - 1 then
            let closeBracket = findMatchingCloseBracket sourceText openBracket in
            if closeBracket \<noteq> - 1 then addRegion openBracket (closeBracket + 1) typescript ctx
            else ctx
          else ctx)"

definition findTypeParameterListRange :: "node list \<Rightarrow> string \<Rightarrow> (int \<times> int) option" where
  "findTypeParameterListRange typeParameters sourceText =
     (case typeParameters of
        [] \<Rightarrow> None
      | firstParam # _ \<Rightarrow>
          let openBracket = findOpeningBracket sourceText (getStart firstParam - 1) in
          if openBracket = - 1 then None
          else
            let closeBracket = findMatchingCloseBracket sourceText openBracket in
            if closeBracket = - 1 then None
            else Some (openBracket, closeBracket + 1))"

text \<open>
  \<^verbatim>\<open>if (node.typeParameters && node.typeParameters.length > 0) { const range = ...;
  if (range) addRegion(range[0], range[1], "typescript"); }\<close>
\<close>

definition markTypeParameters :: "string \<Rightarrow> node \<Rightarrow> traversal \<Rightarrow> traversal" where
  "markTypeParameters sourceText n ctx =
     (if getAll ''typeParameters'' n \<noteq> [] then
        (case findTypeParameterListRange (getAll ''typeParameters'' n) sourceText of
           None \<Rightarrow> ctx
         | Some r \<Rightarrow> addRegion (fst r) (snd r) typescript ctx)
      else ctx)"

text \<open>\<^verbatim>\<open>findColonToken\<close>: the first child of kind \<^verbatim>\<open>ColonToken\<close>, here its \<^verbatim>\<open>getStart()\<close>.\<close>

definition findColonToken :: "node \<Rightarrow> int option" where
  "findColonToken n = map_option snd (find (\<lambda>c. fst c = ''ColonToken'') (getChildren n))"

text \<open>
  \<^verbatim>\<open>if (node.type) { const colonToken = findColonToken(node, sourceFile);
  if (colonToken) addRegion(colonToken.getStart(sourceFile), node.type.getEnd(), "typescript"); }\<close>
\<close>

definition markColonType :: "node \<Rightarrow> traversal \<Rightarrow> traversal" where
  "markColonType n ctx =
     (case get ''type'' n of
        None \<Rightarrow> ctx
      | Some ty \<Rightarrow>
          (case findColonToken n of
             None \<Rightarrow> ctx
           | Some colonStart \<Rightarrow> addRegion colonStart (getEnd ty) typescript ctx))"

text \<open>The same with \<^verbatim>\<open>node.questionToken\<close>, whose start replaces the colon's when present.\<close>

definition markOptionalColonType :: "node \<Rightarrow> traversal \<Rightarrow> traversal" where
  "markOptionalColonType n ctx =
     (case get ''type'' n of
        None \<Rightarrow> ctx
      | Some ty \<Rightarrow>
          (case findColonToken n of
             None \<Rightarrow> ctx
           | Some colonStart \<Rightarrow>
               addRegion
                 (case get ''questionToken'' n of
                    Some questionToken \<Rightarrow> getStart questionToken
                  | None \<Rightarrow> colonStart)
                 (getEnd ty) typescript ctx))"

text \<open>
  \<^verbatim>\<open>for (const modifier of node.modifiers) if (modifier.kind === ... || ...) addRegion(...)\<close>
\<close>

definition markModifiers :: "string list \<Rightarrow> node \<Rightarrow> traversal \<Rightarrow> traversal" where
  "markModifiers kinds n ctx =
     fold (\<lambda>modifier c.
             if kind modifier \<in> set kinds
             then addRegion (getStart modifier) (getEnd modifier) typescript c else c)
          (getAll ''modifiers'' n) ctx"

text \<open>\<^verbatim>\<open>node.modifiers?.some(m => m.kind === ts.SyntaxKind.DeclareKeyword)\<close>\<close>

definition hasDeclare :: "node \<Rightarrow> bool" where
  "hasDeclare n \<longleftrightarrow> list_ex (\<lambda>m. kind m = ''DeclareKeyword'') (getAll ''modifiers'' n)"

text \<open>
  \<^verbatim>\<open>ts.isPropertyAccessExpression(tagName) && ts.isIdentifier(tagName.expression) &&
  tagName.expression.text === "React"\<close>
\<close>

definition tagNameIsReact :: "node \<Rightarrow> bool option" where
  "tagNameIsReact tagName =
     (if kind tagName = ''PropertyAccessExpression'' then
        do {
          e \<leftarrow> get ''expression'' tagName;
          Some (kind e = ''Identifier'' \<and> textOf e = ''React'')
        }
      else Some False)"

text \<open>
  \<^verbatim>\<open>while (spreadStart < end && /\s/.test(sourceText[spreadStart])) spreadStart++\<close>;
  \<^verbatim>\<open>/\s/.test(undefined)\<close> is false.
\<close>

function skipWhitespace :: "string \<Rightarrow> int \<Rightarrow> int \<Rightarrow> int" where
  "skipWhitespace sourceText endPos spreadStart =
     (if spreadStart < endPos \<and>
         (case charAt sourceText spreadStart of None \<Rightarrow> False | Some c \<Rightarrow> isWhiteSpace c)
      then skipWhitespace sourceText endPos (spreadStart + 1)
      else spreadStart)"
  by pat_completeness auto
termination
  by (relation "measure (\<lambda>(sourceText, endPos, spreadStart). nat (endPos - spreadStart))") auto

declare skipWhitespace.simps [simp del]

subsection \<open>The standard classification\<close>

definition isTypeScriptNode :: "node \<Rightarrow> bool" where
  "isTypeScriptNode n \<longleftrightarrow>
     kind n \<in> {''TypeAliasDeclaration'', ''InterfaceDeclaration'', ''TypeReference'',
       ''TypeLiteral'', ''EnumDeclaration'', ''TypeParameter'', ''TypePredicate'', ''TypeQuery'',
       ''TypeOperator'', ''IndexedAccessType'', ''MappedType'', ''ConditionalType'',
       ''InferType'', ''UnionType'', ''IntersectionType'', ''ArrayType'', ''TupleType'',
       ''LiteralType'', ''FunctionType'', ''ConstructorType'', ''ParenthesizedType'',
       ''ThisType''}"

definition isJsxStructuralNode :: "node \<Rightarrow> bool" where
  "isJsxStructuralNode n \<longleftrightarrow>
     kind n \<in> {''JsxOpeningFragment'', ''JsxClosingFragment'', ''JsxText''}"

definition isJavaScriptNode :: "node \<Rightarrow> bool" where
  "isJavaScriptNode n \<longleftrightarrow>
     kind n \<in> {''VariableDeclaration'', ''VariableStatement'', ''FunctionDeclaration'',
       ''ArrowFunction'', ''FunctionExpression'', ''PropertyAccessExpression'',
       ''ElementAccessExpression'', ''ObjectLiteralExpression'', ''ArrayLiteralExpression'',
       ''ConditionalExpression'', ''BinaryExpression'', ''PrefixUnaryExpression'',
       ''PostfixUnaryExpression'', ''TemplateExpression'', ''IfStatement'', ''ForStatement'',
       ''ForInStatement'', ''ForOfStatement'', ''WhileStatement'', ''DoStatement'',
       ''SwitchStatement'', ''TryStatement'', ''ThrowStatement'', ''ReturnStatement'',
       ''ClassDeclaration'', ''ImportDeclaration'', ''ExportDeclaration'', ''ExportAssignment'',
       ''AwaitExpression'', ''SpreadElement'', ''Parameter'', ''Identifier'', ''StringLiteral'',
       ''NumericLiteral'', ''ParenthesizedExpression''}"

text \<open>
  \<^verbatim>\<open>classifyNode\<close>; the inner \<open>None\<close> is its \<^verbatim>\<open>null\<close>, the outer one the \<^verbatim>\<open>TypeError\<close>
  of \<^verbatim>\<open>node.typeName.getText\<close> on a type reference without a name.
\<close>

definition classifyNode :: "string \<Rightarrow> node \<Rightarrow> SyntaxLayer option option" where
  "classifyNode sourceText n =
     (if isTypeScriptNode n then
        (if kind n = ''TypeReference'' then
           do {
             tn \<leftarrow> get ''typeName'' n;
             let typeName = getText sourceText tn;
             Some (Some (if startsWith typeName ''React.'' \<or> startsWith typeName ''JSX.'' \<or>
                            typeName \<in> REACT_TYPES
                         then react else typescript))
           }
         else Some (Some typescript))
      else if isJsxStructuralNode n then Some (Some jsx)
      else if kind n = ''Identifier'' \<and> textOf n = ''React'' then Some (Some react)
      else if isJavaScriptNode n then Some (Some javascript)
      else Some None)"

text \<open>
  The end of \<^verbatim>\<open>visit\<close>, under \<^verbatim>\<open>=== STANDARD CLASSIFICATIONS ===\<close>. The second
  component of the result lists the nodes that \<^verbatim>\<open>visit\<close> goes on to visit, in order.
\<close>

definition standardClassification ::
    "string \<Rightarrow> node \<Rightarrow> traversal \<Rightarrow> (traversal \<times> node list) option" where
  "standardClassification sourceText n ctx =
     do {
       l \<leftarrow> classifyNode sourceText n;
       Some ((case l of
                None \<Rightarrow> ctx
              | Some lay \<Rightarrow> addRegion (getStart n) (getEnd n) lay ctx),
             forEachChild n)
     }"


subsection \<open>The special cases of \<^verbatim>\<open>visit\<close>\<close>

text \<open>
  Each special case of \<^verbatim>\<open>visit\<close> adds its regions, visits the children it chooses and
  returns. It is modelled by a function from the traversal state to the new state and the
  list of nodes visited next; \<open>None\<close> is the \<^verbatim>\<open>TypeError\<close> of reading a property of a child
  that the tree does not have.
\<close>

type_synonym branch = "(traversal \<times> node list) option"

text \<open>Misparsed generic arrow function: the condition, and the branch.\<close>

definition misparsedGenericArrow :: "string \<Rightarrow> node \<Rightarrow> bool option" where
  "misparsedGenericArrow sourceText n =
     do {
       opening \<leftarrow> get ''openingElement'' n;
       tagName \<leftarrow> get ''tagName'' opening;
       if kind tagName \<noteq> ''Identifier'' then Some False
       else do {
         attributes \<leftarrow> get ''attributes'' opening;
         Some (getAll ''properties'' attributes = [] \<and>
               (case getAll ''children'' n of
                  [] \<Rightarrow> False
                | c # _ \<Rightarrow> kind c = ''JsxText'' \<and> includes_str (getText sourceText c) ''=>''))
       }
     }"

definition visitJsxElement :: "string \<Rightarrow> node \<Rightarrow> traversal \<Rightarrow> branch" where
  "visitJsxElement sourceText n ctx =
     do {
       misparsed \<leftarrow> misparsedGenericArrow sourceText n;
       if misparsed then
         do {
           opening \<leftarrow> get ''openingElement'' n;
           let ctx = addRegion (getStart n) (getEnd opening) typescript ctx;
           let ctx = addRegion (getEnd opening) (getEnd n) javascript ctx;
           Some (ctx, drop 1 (getAll ''children'' n))
         }
       else standardClassification sourceText n ctx
     }"

text \<open>The tag name of an opening or self-closing element.\<close>

definition markTagName :: "node \<Rightarrow> node \<Rightarrow> bool \<Rightarrow> traversal \<Rightarrow> traversal" where
  "markTagName n tagName isReact ctx =
     (if isReact then
        addRegion (getStart tagName) (getEnd tagName) react
          (addRegion (getStart n) (getStart n + 1) jsx ctx)
      else addRegion (getStart n) (getEnd tagName) jsx ctx)"

definition visitJsxSelfClosingElement :: "string \<Rightarrow> node \<Rightarrow> traversal \<Rightarrow> branch" where
  "visitJsxSelfClosingElement sourceText n ctx =
     do {
       tagName \<leftarrow> get ''tagName'' n;
       isReact \<leftarrow> tagNameIsReact tagName;
       let ctx = markTagName n tagName isReact ctx;
       let ctx = markTypeArguments sourceText (getAll ''typeArguments'' n) ctx;
       let ctx = addRegion (getEnd n - 2) (getEnd n) jsx ctx;
       Some (ctx, forEachChild n)
     }"

definition visitJsxOpeningElement :: "string \<Rightarrow> node \<Rightarrow> traversal \<Rightarrow> branch" where
  "visitJsxOpeningElement sourceText n ctx =
     do {
       tagName \<leftarrow> get ''tagName'' n;
       isReact \<leftarrow> tagNameIsReact tagName;
       let ctx = markTagName n tagName isReact ctx;
       let ctx = markTypeArguments sourceText (getAll ''typeArguments'' n) ctx;
       let ctx = addRegion (getEnd n - 1) (getEnd n) jsx ctx;
       Some (ctx, forEachChild n)
     }"

definition visitJsxClosingElement :: "node \<Rightarrow> traversal \<Rightarrow> branch" where
  "visitJsxClosingElement n ctx =
     do {
       tagName \<leftarrow> get ''tagName'' n;
       isReact \<leftarrow> tagNameIsReact tagName;
       if isReact then
         do {
           let ctx = addRegion (getStart n) (getStart n + 2) jsx ctx;
           let ctx = addRegion (getStart tagName) (getEnd tagName) react ctx;
           let ctx = addRegion (getEnd n - 1) (getEnd n) jsx ctx;
           Some (ctx, [])
         }
       else Some (addRegion (getStart n) (getEnd n) jsx ctx, [])
     }"

definition visitJsxExpression :: "string \<Rightarrow> node \<Rightarrow> traversal \<Rightarrow> branch" where
  "visitJsxExpression sourceText n ctx =
     (let ctx = addRegion (getStart n) (getStart n + 1) jsx ctx;
          ctx = (if charAt sourceText (getEnd n - 1) = Some CHR ''}''
                 then addRegion (getEnd n - 1) (getEnd n) jsx ctx else ctx)
      in Some (ctx, forEachChild n))"

definition visitJsxSpreadAttribute :: "string \<Rightarrow> node \<Rightarrow> traversal \<Rightarrow> branch" where
  "visitJsxSpreadAttribute sourceText n ctx =
     (let spreadStart = skipWhitespace sourceText (getEnd n) (getStart n + 1);
          spreadEnd = spreadStart + 3;
          ctx = addRegion (getStart n) spreadEnd jsx ctx;
          ctx = addRegion (getEnd n - 1) (getEnd n) jsx ctx
      in Some (ctx, forEachChild n))"

definition visitJsxAttribute :: "node \<Rightarrow> traversal \<Rightarrow> branch" where
  "visitJsxAttribute n ctx =
     do {
       nameNode \<leftarrow> get ''name'' n;
       let nameEnd = getEnd nameNode;
       let ctx =
         (if kind nameNode = ''Identifier'' then
            (if textOf nameNode \<in> REACT_JSX_ATTRIBUTES
             then addRegion (getStart nameNode) nameEnd react ctx
             else addRegion (getStart nameNode) nameEnd jsx ctx)
          else ctx);
       Some (case get ''initializer'' n of
               None \<Rightarrow> (ctx, [])
             | Some initializer \<Rightarrow>
                 let ctx = addRegion nameEnd (getStart initializer) jsx ctx in
                 if kind initializer = ''StringLiteral''
                 then (addRegion (getStart initializer) (getEnd initializer) jsx ctx, [])
                 else if kind initializer = ''JsxExpression'' then (ctx, [initializer])
                 else (ctx, []))
     }"

definition visitDecorator :: "node \<Rightarrow> traversal \<Rightarrow> branch" where
  "visitDecorator n ctx = Some (addRegion (getStart n) (getEnd n) typescript ctx, [])"

text \<open>
  Directive prologues. An expression statement whose expression is not a string literal
  meets no later special case, since those test for other kinds, and reaches the standard
  classification.
\<close>

definition visitExpressionStatement :: "string \<Rightarrow> node \<Rightarrow> traversal \<Rightarrow> branch" where
  "visitExpressionStatement sourceText n ctx =
     do {
       expression \<leftarrow> get ''expression'' n;
       if kind expression = ''StringLiteral'' then
         (if textOf expression \<in> REACT_DIRECTIVES
          then Some (addRegion (getStart n) (getEnd n) react ctx, [])
          else Some (addRegion (getStart n) (getEnd n) javascript ctx, []))
       else standardClassification sourceText n ctx
     }"

definition visitVariableStatement :: "node \<Rightarrow> traversal \<Rightarrow> branch" where
  "visitVariableStatement n ctx =
     (if hasDeclare n then Some (addRegion (getStart n) (getEnd n) typescript ctx, [])
      else
        do {
          declarationList \<leftarrow> get ''declarationList'' n;
          if (flags declarationList AND NodeFlags_Using) \<noteq> 0 then
            do {
              let declStart = getStart declarationList;
              let ctx =
                (case getAll ''declarations'' declarationList of
                   [] \<Rightarrow> ctx
                 | firstDecl # _ \<Rightarrow> addRegion declStart (getStart firstDecl) typescript ctx);
              let ctx = addRegion (getStart n) (getEnd n) javascript ctx;
              Some (ctx, forEachChild n)
            }
          else Some (addRegion (getStart n) (getEnd n) javascript ctx, forEachChild n)
        })"

definition visitInterfaceDeclaration :: "node \<Rightarrow> traversal \<Rightarrow> branch" where
  "visitInterfaceDeclaration n ctx =
     Some (addRegion (getStart n) (getEnd n) typescript ctx, forEachChild n)"

definition visitTypeAliasDeclaration :: "node \<Rightarrow> traversal \<Rightarrow> branch" where
  "visitTypeAliasDeclaration n ctx =
     Some (addRegion (getStart n) (getEnd n) typescript ctx, forEachChild n)"

text \<open>Enum declarations: \<^verbatim>\<open>if (node.name) enumNames.add(node.name.text)\<close>, then the region.\<close>

definition visitEnumDeclaration :: "node \<Rightarrow> traversal \<Rightarrow> branch" where
  "visitEnumDeclaration n ctx =
     (let ctx = (case get ''name'' n of
                   None \<Rightarrow> ctx
                 | Some nm \<Rightarrow> ctx\<lparr>enumNames := insert (textOf nm) (enumNames ctx)\<rparr>)
      in Some (addRegion (getStart n) (getEnd n) typescript ctx, []))"

definition visitModuleDeclaration :: "node \<Rightarrow> traversal \<Rightarrow> branch" where
  "visitModuleDeclaration n ctx = Some (addRegion (getStart n) (getEnd n) typescript ctx, [])"

definition visitExpressionWithTypeArguments :: "string \<Rightarrow> node \<Rightarrow> traversal \<Rightarrow> branch" where
  "visitExpressionWithTypeArguments sourceText n ctx =
     do {
       expr \<leftarrow> get ''expression'' n;
       let ctx = (if kind expr = ''Identifier'' \<and> textOf expr \<in> REACT_TYPES
                  then addRegion (getStart expr) (getEnd expr) react ctx else ctx);
       let ctx = markTypeArguments sourceText (getAll ''typeArguments'' n) ctx;
       Some (ctx, forEachChild n)
     }"

definition visitClassDeclaration :: "string \<Rightarrow> node \<Rightarrow> traversal \<Rightarrow> branch" where
  "visitClassDeclaration sourceText n ctx =
     (if hasDeclare n then Some (addRegion (getStart n) (getEnd n) typescript ctx, [])
      else
        let ctx = addRegion (getStart n) (getEnd n) javascript ctx;
            ctx = markModifiers [''AbstractKeyword''] n ctx;
            ctx = markTypeParameters sourceText n ctx;
            ctx = fold (\<lambda>clause c.
                          fold (\<lambda>ty c'. markTypeArguments sourceText (getAll ''typeArguments'' ty) c')
                               (getAll ''types'' clause) c)
                       (getAll ''heritageClauses'' n) ctx
        in Some (ctx, forEachChild n))"


text \<open>
  The type-narrowing expressions: only \<^verbatim>\<open>node.expression\<close> is visited.
\<close>

definition visitAsExpression :: "node \<Rightarrow> traversal \<Rightarrow> branch" where
  "visitAsExpression n ctx =
     do {
       expression \<leftarrow> get ''expression'' n;
       let ctx = addRegion (getStart expression) (getEnd expression) javascript ctx;
       let ctx = addRegion (getEnd expression) (getEnd n) typescript ctx;
       Some (ctx, [expression])
     }"

definition visitTypeAssertionExpression :: "node \<Rightarrow> traversal \<Rightarrow> branch" where
  "visitTypeAssertionExpression n ctx =
     do {
       expression \<leftarrow> get ''expression'' n;
       let exprStart = getStart expression;
       let ctx = addRegion (getStart n) exprStart typescript ctx;
       let ctx = addRegion exprStart (getEnd expression) javascript ctx;
       Some (ctx, [expression])
     }"

definition visitSatisfiesExpression :: "node \<Rightarrow> traversal \<Rightarrow> branch" where
  "visitSatisfiesExpression n ctx =
     do {
       expression \<leftarrow> get ''expression'' n;
       let ctx = addRegion (getStart expression) (getEnd expression) javascript ctx;
       let ctx = addRegion (getEnd expression) (getEnd n) typescript ctx;
       Some (ctx, [expression])
     }"

definition visitNonNullExpression :: "node \<Rightarrow> traversal \<Rightarrow> branch" where
  "visitNonNullExpression n ctx =
     do {
       expression \<leftarrow> get ''expression'' n;
       let ctx = addRegion (getStart expression) (getEnd expression) javascript ctx;
       let ctx = addRegion (getEnd n - 1) (getEnd n) typescript ctx;
       Some (ctx, [expression])
     }"

text \<open>The typed bindings.\<close>

definition visitVariableDeclaration :: "node \<Rightarrow> traversal \<Rightarrow> branch" where
  "visitVariableDeclaration n ctx =
     (let ctx = addRegion (getStart n) (getEnd n) javascript ctx;
          ctx = markColonType n ctx
      in Some (ctx, forEachChild n))"

definition visitParameter :: "node \<Rightarrow> traversal \<Rightarrow> branch" where
  "visitParameter n ctx =
     (let ctx = addRegion (getStart n) (getEnd n) javascript ctx;
          ctx = markModifiers
                  [''PublicKeyword'', ''PrivateKeyword'', ''ProtectedKeyword'', ''ReadonlyKeyword'']
                  n ctx;
          ctx = markOptionalColonType n ctx
      in Some (ctx, forEachChild n))"

definition visitPropertySignature :: "node \<Rightarrow> traversal \<Rightarrow> branch" where
  "visitPropertySignature n ctx = Some (markOptionalColonType n ctx, forEachChild n)"

definition visitPropertyDeclaration :: "node \<Rightarrow> traversal \<Rightarrow> branch" where
  "visitPropertyDeclaration n ctx =
     (let ctx = addRegion (getStart n) (getEnd n) javascript ctx;
          ctx = markModifiers
                  [''PublicKeyword'', ''PrivateKeyword'', ''ProtectedKeyword'', ''ReadonlyKeyword'',
                   ''AbstractKeyword'', ''AccessorKeyword'']
                  n ctx;
          ctx = markOptionalColonType n ctx
      in Some (ctx, forEachChild n))"

definition visitFunctionDeclaration :: "string \<Rightarrow> node \<Rightarrow> traversal \<Rightarrow> branch" where
  "visitFunctionDeclaration sourceText n ctx =
     (if hasDeclare n then Some (addRegion (getStart n) (getEnd n) typescript ctx, [])
      else
        let ctx = addRegion (getStart n) (getEnd n) javascript ctx;
            ctx = markColonType n ctx;
            ctx = markTypeParameters sourceText n ctx
        in Some (ctx, forEachChild n))"

definition visitMethodDeclaration :: "string \<Rightarrow> node \<Rightarrow> traversal \<Rightarrow> branch" where
  "visitMethodDeclaration sourceText n ctx =
     (let ctx = addRegion (getStart n) (getEnd n) javascript ctx;
          ctx = markModifiers
                  [''PublicKeyword'', ''PrivateKeyword'', ''ProtectedKeyword'', ''AbstractKeyword'',
                   ''OverrideKeyword'']
                  n ctx;
          ctx = markColonType n ctx;
          ctx = markTypeParameters sourceText n ctx
      in Some (ctx, forEachChild n))"

definition visitArrowFunction :: "string \<Rightarrow> node \<Rightarrow> traversal \<Rightarrow> branch" where
  "visitArrowFunction sourceText n ctx =
     (let ctx = addRegion (getStart n) (getEnd n) javascript ctx;
          ctx = markColonType n ctx;
          ctx = markTypeParameters sourceText n ctx
      in Some (ctx, forEachChild n))"

definition visitFunctionExpression :: "string \<Rightarrow> node \<Rightarrow> traversal \<Rightarrow> branch" where
  "visitFunctionExpression sourceText n ctx =
     (let ctx = addRegion (getStart n) (getEnd n) javascript ctx;
          ctx = markColonType n ctx;
          ctx = markTypeParameters sourceText n ctx
      in Some (ctx, forEachChild n))"

definition visitGetAccessor :: "node \<Rightarrow> traversal \<Rightarrow> branch" where
  "visitGetAccessor n ctx =
     (let ctx = addRegion (getStart n) (getEnd n) javascript ctx;
          ctx = markColonType n ctx
      in Some (ctx, forEachChild n))"

text \<open>
  Imports and exports. The body of the loop over the specifiers of a type-only statement,
  and the body of the loop over the specifiers of a regular one.
\<close>

definition markReactTypeName :: "node \<Rightarrow> traversal \<Rightarrow> traversal option" where
  "markReactTypeName specifier ctx =
     do {
       nm \<leftarrow> get ''name'' specifier;
       Some (if textOf nm \<in> REACT_TYPES
             then addRegion (getStart nm) (getEnd nm) react ctx else ctx)
     }"

definition markTypeOnlySpecifier :: "node \<Rightarrow> traversal \<Rightarrow> traversal option" where
  "markTypeOnlySpecifier specifier ctx =
     (if isTypeOnly specifier then
        do {
          nm \<leftarrow> get ''name'' specifier;
          let nameStart = getStart nm;
          let ctx = addRegion (getStart specifier) nameStart typescript ctx;
          Some (if textOf nm \<in> REACT_TYPES
                then addRegion nameStart (getEnd nm) react ctx
                else addRegion nameStart (getEnd nm) typescript ctx)
        }
      else Some ctx)"

definition visitImportDeclaration :: "node \<Rightarrow> traversal \<Rightarrow> branch" where
  "visitImportDeclaration n ctx =
     (let importClause = get ''importClause'' n;
          namedBindings = (case importClause of
                             None \<Rightarrow> None
                           | Some ic \<Rightarrow> get ''namedBindings'' ic);
          elements = (case namedBindings of
                        None \<Rightarrow> []
                      | Some nb \<Rightarrow> if kind nb = ''NamedImports'' then getAll ''elements'' nb else [])
      in if (case importClause of None \<Rightarrow> False | Some ic \<Rightarrow> isTypeOnly ic) then
           do {
             let ctx = addRegion (getStart n) (getEnd n) typescript ctx;
             ctx \<leftarrow> foldOpt markReactTypeName elements ctx;
             Some (ctx, [])
           }
         else
           do {
             let ctx = addRegion (getStart n) (getEnd n) javascript ctx;
             ctx \<leftarrow> foldOpt markTypeOnlySpecifier elements ctx;
             Some (ctx, forEachChild n)
           })"

definition visitExportDeclaration :: "node \<Rightarrow> traversal \<Rightarrow> branch" where
  "visitExportDeclaration n ctx =
     (let elements = (case get ''exportClause'' n of
                        None \<Rightarrow> []
                      | Some ec \<Rightarrow> if kind ec = ''NamedExports'' then getAll ''elements'' ec else [])
      in if isTypeOnly n then
           do {
             let ctx = addRegion (getStart n) (getEnd n) typescript ctx;
             ctx \<leftarrow> foldOpt markReactTypeName elements ctx;
             Some (ctx, [])
           }
         else
           do {
             let ctx = addRegion (getStart n) (getEnd n) javascript ctx;
             ctx \<leftarrow> foldOpt markTypeOnlySpecifier elements ctx;
             Some (ctx, forEachChild n)
           })"

text \<open>
  Property access on enums. An access that is not one meets the tests for call and
  \<^verbatim>\<open>new\<close> expressions, which fail, and reaches the standard classification.
\<close>

definition visitPropertyAccessExpression :: "string \<Rightarrow> node \<Rightarrow> traversal \<Rightarrow> branch" where
  "visitPropertyAccessExpression sourceText n ctx =
     do {
       expr \<leftarrow> get ''expression'' n;
       if kind expr = ''Identifier'' \<and> textOf expr \<in> enumNames ctx
       then Some (addRegion (getStart n) (getEnd n) typescript ctx, [])
       else standardClassification sourceText n ctx
     }"

text \<open>Call expressions. First the two loops of the \<^verbatim>\<open>createElement\<close> case.\<close>

definition markFirstArgument :: "string \<Rightarrow> node \<Rightarrow> traversal \<Rightarrow> traversal option" where
  "markFirstArgument sourceText firstArg ctx =
     (if kind firstArg = ''Identifier'' \<and> isPascalCase (textOf firstArg)
      then Some (addRegion (getStart firstArg) (getEnd firstArg) react ctx)
      else if kind firstArg = ''PropertyAccessExpression'' then
        do {
          e \<leftarrow> get ''expression'' firstArg;
          Some (if getText sourceText e = ''React''
                then addRegion (getStart firstArg) (getEnd firstArg) react ctx else ctx)
        }
      else Some ctx)"

definition markKeyProperty :: "node \<Rightarrow> traversal \<Rightarrow> traversal option" where
  "markKeyProperty prop ctx =
     (if kind prop = ''PropertyAssignment'' then
        do {
          nm \<leftarrow> get ''name'' prop;
          Some (if kind nm = ''Identifier'' \<and> textOf nm = ''key''
                then addRegion (getStart nm) (getEnd nm) react ctx else ctx)
        }
      else Some ctx)"

definition visitCallExpression :: "string \<Rightarrow> node \<Rightarrow> traversal \<Rightarrow> branch" where
  "visitCallExpression sourceText n ctx =
     do {
       expression \<leftarrow> get ''expression'' n;
       let callee = getText sourceText expression;
       let ctx = markTypeArguments sourceText (getAll ''typeArguments'' n) ctx;
       if callee \<in> REACT_HOOKS then
         do {
           let ctx = addRegion (getStart expression) (getEnd expression) react ctx;
           let ctx = addRegion (getStart n) (getEnd n) javascript ctx;
           Some (ctx, forEachChild n)
         }
       else if isQualifiedHook callee then
         do {
           let ctx = addRegion (getStart expression) (getEnd expression) react ctx;
           let ctx = addRegion (getStart n) (getEnd n) javascript ctx;
           Some (ctx, forEachChild n)
         }
       else if callee \<in> REACT_UTILS then
         do {
           let ctx = addRegion (getStart expression) (getEnd expression) react ctx;
           let ctx = addRegion (getStart n) (getEnd n) javascript ctx;
           Some (ctx, forEachChild n)
         }
       else if callee = ''React.createElement'' \<or> callee = ''createElement'' then
         do {
           let ctx = addRegion (getStart expression) (getEnd expression) react ctx;
           ctx \<leftarrow> (case getAll ''arguments'' n of
                    [] \<Rightarrow> Some ctx
                  | firstArg # _ \<Rightarrow> markFirstArgument sourceText firstArg ctx);
           ctx \<leftarrow> (case drop 1 (getAll ''arguments'' n) of
                    [] \<Rightarrow> Some ctx
                  | propsArg # _ \<Rightarrow>
                      if kind propsArg = ''ObjectLiteralExpression''
                      then foldOpt markKeyProperty (getAll ''properties'' propsArg) ctx
                      else Some ctx);
           Some (ctx, forEachChild n)
         }
       else if startsWith callee ''React.'' then
         do {
           let ctx = addRegion (getStart expression) (getEnd expression) react ctx;
           let ctx = addRegion (getStart n) (getEnd n) javascript ctx;
           Some (ctx, forEachChild n)
         }
       else Some (addRegion (getStart n) (getEnd n) javascript ctx, forEachChild n)
     }"

definition visitNewExpression :: "string \<Rightarrow> node \<Rightarrow> traversal \<Rightarrow> branch" where
  "visitNewExpression sourceText n ctx =
     (let ctx = addRegion (getStart n) (getEnd n) javascript ctx;
          ctx = markTypeArguments sourceText (getAll ''typeArguments'' n) ctx
      in Some (ctx, forEachChild n))"


subsection \<open>The walk\<close>

text \<open>
  The body of \<^verbatim>\<open>visit\<close> for one node: the chain of tests in the order of the source.
\<close>

definition visitNode :: "string \<Rightarrow> node \<Rightarrow> traversal \<Rightarrow> branch" where
  "visitNode sourceText n ctx =
     (if kind n = ''JsxElement'' then visitJsxElement sourceText n ctx
      else if kind n = ''JsxSelfClosingElement'' then visitJsxSelfClosingElement sourceText n ctx
      else if kind n = ''JsxOpeningElement'' then visitJsxOpeningElement sourceText n ctx
      else if kind n = ''JsxClosingElement'' then visitJsxClosingElement n ctx
      else if kind n = ''JsxExpression'' then visitJsxExpression sourceText n ctx
      else if kind n = ''JsxSpreadAttribute'' then visitJsxSpreadAttribute sourceText n ctx
      else if kind n = ''JsxAttribute'' then visitJsxAttribute n ctx
      else if kind n = ''Decorator'' then visitDecorator n ctx
      else if kind n = ''ExpressionStatement'' then visitExpressionStatement sourceText n ctx
      else if kind n = ''VariableStatement'' then visitVariableStatement n ctx
      else if kind n = ''InterfaceDeclaration'' then visitInterfaceDeclaration n ctx
      else if kind n = ''TypeAliasDeclaration'' then visitTypeAliasDeclaration n ctx
      else if kind n = ''EnumDeclaration'' then visitEnumDeclaration n ctx
      else if kind n = ''ModuleDeclaration'' then visitModuleDeclaration n ctx
      else if kind n = ''ExpressionWithTypeArguments''
        then visitExpressionWithTypeArguments sourceText n ctx
      else if kind n = ''ClassDeclaration'' then visitClassDeclaration sourceText n ctx
      else if kind n = ''AsExpression'' then visitAsExpression n ctx
      else if kind n = ''TypeAssertionExpression'' then visitTypeAssertionExpression n ctx
      else if kind n = ''SatisfiesExpression'' then visitSatisfiesExpression n ctx
      else if kind n = ''NonNullExpression'' then visitNonNullExpression n ctx
      else if kind n = ''VariableDeclaration'' \<and> get ''type'' n \<noteq> None
        then visitVariableDeclaration n ctx
      else if kind n = ''Parameter'' then visitParameter n ctx
      else if kind n = ''PropertySignature'' \<and> get ''type'' n \<noteq> None
        then visitPropertySignature n ctx
      else if kind n = ''PropertyDeclaration'' then visitPropertyDeclaration n ctx
      else if kind n = ''FunctionDeclaration'' then visitFunctionDeclaration sourceText n ctx
      else if kind n = ''MethodDeclaration'' then visitMethodDeclaration sourceText n ctx
      else if kind n = ''ArrowFunction'' then visitArrowFunction sourceText n ctx
      else if kind n = ''FunctionExpression'' then visitFunctionExpression sourceText n ctx
      else if kind n = ''ImportDeclaration'' then visitImportDeclaration n ctx
      else if kind n = ''ExportDeclaration'' then visitExportDeclaration n ctx
      else if kind n = ''GetAccessor'' then visitGetAccessor n ctx
      else if kind n = ''PropertyAccessExpression''
        then visitPropertyAccessExpression sourceText n ctx
      else if kind n = ''CallExpression'' then visitCallExpression sourceText n ctx
      else if kind n = ''NewExpression'' then visitNewExpression sourceText n ctx
      else standardClassification sourceText n ctx)"

text \<open>
  The nodes a special case goes on to visit are children of the node, so the walk is a
  recursion on the tree.
\<close>

lemma find_in_set: "find P xs = Some x \<Longrightarrow> x \<in> set xs"
  by (induction xs) (auto split: if_splits)

lemma get_in_children: "get p n = Some c \<Longrightarrow> c \<in> set (forEachChild n)"
  by (force simp: get_def forEachChild_def dest!: find_in_set)

lemma size_child: "c \<in> set (forEachChild n) \<Longrightarrow> size c < size n"
proof (cases n)
  case (Node k fs s e t ty fl toks ps)
  assume "c \<in> set (forEachChild n)"
  then obtain l where "(l, c) \<in> set ps" using Node by (auto simp: forEachChild_def)
  then have "size c < Suc (size_list (size_prod (\<lambda>_. 0) size) ps)"
    by (induction ps) auto
  then show ?thesis using Node by simp
qed

lemma foldOpt_cong [fundef_cong]:
  "xs = ys \<Longrightarrow> s = t \<Longrightarrow> (\<And>x u. x \<in> set ys \<Longrightarrow> f x u = g x u) \<Longrightarrow>
   foldOpt f xs s = foldOpt g ys t"
proof (induction ys arbitrary: xs s t)
  case Nil
  then show ?case by simp
next
  case (Cons y ys)
  then show ?case by (auto split: option.splits)
qed


lemma getAll_subset: "set (getAll p n) \<subseteq> set (forEachChild n)"
  by (auto simp: getAll_def forEachChild_def)

lemma standardClassification_kids:
  "standardClassification sourceText n ctx = Some (ctx', kids) \<Longrightarrow> kids = forEachChild n"
  by (auto simp: standardClassification_def split: bind_splits)

lemma visitNode_kids:
  assumes "visitNode sourceText n ctx = Some (ctx', kids)"
  shows "set kids \<subseteq> set (forEachChild n)"
proof -
  have drop1: "set (drop 1 (getAll ''children'' n)) \<subseteq> set (forEachChild n)"
    using getAll_subset[of "''children''" n] set_drop_subset[of 1 "getAll ''children'' n"] by blast
  note defs = visitJsxElement_def visitJsxSelfClosingElement_def visitJsxOpeningElement_def
    visitJsxClosingElement_def visitJsxExpression_def visitJsxSpreadAttribute_def
    visitJsxAttribute_def visitDecorator_def visitExpressionStatement_def
    visitVariableStatement_def visitInterfaceDeclaration_def visitTypeAliasDeclaration_def
    visitEnumDeclaration_def visitModuleDeclaration_def visitExpressionWithTypeArguments_def
    visitClassDeclaration_def visitAsExpression_def visitTypeAssertionExpression_def
    visitSatisfiesExpression_def visitNonNullExpression_def visitVariableDeclaration_def
    visitParameter_def visitPropertySignature_def visitPropertyDeclaration_def
    visitFunctionDeclaration_def visitMethodDeclaration_def visitArrowFunction_def
    visitFunctionExpression_def visitImportDeclaration_def visitExportDeclaration_def
    visitGetAccessor_def visitPropertyAccessExpression_def visitCallExpression_def
    visitNewExpression_def
  have "kids = forEachChild n \<or> kids = [] \<or> kids = drop 1 (getAll ''children'' n) \<or>
        (\<exists>p c. get p n = Some c \<and> kids = [c])"
    using assms unfolding visitNode_def defs
    by (auto simp: Let_def dest: standardClassification_kids split: if_splits bind_splits option.splits)
  then show ?thesis using drop1 get_in_children by auto
qed

text \<open>
  \<^verbatim>\<open>visit\<close>: the regions of the node itself, then the visits of the chosen children from
  left to right, each in the state the previous one left.
\<close>

function visit :: "string \<Rightarrow> node \<Rightarrow> traversal \<Rightarrow> traversal option" where
  "visit sourceText n ctx =
     (case visitNode sourceText n ctx of
        None \<Rightarrow> None
      | Some (ctx', kids) \<Rightarrow> foldOpt (visit sourceText) kids ctx')"
  by pat_completeness auto
termination
proof (relation "measure (\<lambda>(sourceText, n, ctx). size n)")
  show "wf (measure (\<lambda>(sourceText, n, ctx). size n))" by simp
next
  fix sourceText n ctx x2 ctx' kids x u
  assume "visitNode sourceText n ctx = Some x2" "(ctx', kids) = x2" "x \<in> set kids"
  then have "x \<in> set (forEachChild n)" using visitNode_kids[of sourceText n ctx ctx' kids] by auto
  then show "((sourceText, x, u), (sourceText, n, ctx)) \<in> measure (\<lambda>(sourceText, n, ctx). size n)"
    using size_child by simp
qed

declare visit.simps [simp del]

section \<open>The comment scanner\<close>

text \<open>
  \<^verbatim>\<open>collectComments\<close> and its inner \<^verbatim>\<open>visitForComments\<close>. It calls the \<^verbatim>\<open>addRegion\<close> of
  \<^verbatim>\<open>classifyDocument\<close>, so it appends to the same \<^verbatim>\<open>rawRegions\<close>.
\<close>

function visitForComments :: "ts_api \<Rightarrow> string \<Rightarrow> node \<Rightarrow> traversal \<Rightarrow> traversal" where
  "visitForComments ts sourceText n ctx =
     (let nodeStart = getFullStart n;
          nodeTextStart = getStart n;
          ctx = (if nodeStart < nodeTextStart
                 then fold (\<lambda>comment c. addRegion (fst comment) (snd comment) javascript c)
                        (getLeadingCommentRanges ts sourceText nodeStart) ctx
                 else ctx);
          ctx = fold (\<lambda>comment c. addRegion (fst comment) (snd comment) javascript c)
                  (getTrailingCommentRanges ts sourceText (getEnd n)) ctx
      in fold (visitForComments ts sourceText) (forEachChild n) ctx)"
  by pat_completeness auto
termination
  by (relation "measure (\<lambda>(ts, sourceText, n, ctx). size n)") (auto simp: size_child)

declare visitForComments.simps [simp del]

definition collectComments :: "ts_api \<Rightarrow> node \<Rightarrow> string \<Rightarrow> traversal \<Rightarrow> traversal" where
  "collectComments ts sourceFile sourceText ctx = visitForComments ts sourceText sourceFile ctx"

section \<open>The entry point\<close>

text \<open>
  \<^verbatim>\<open>classifyDocument\<close>, with the module \<^verbatim>\<open>ts\<close> as a parameter. The list \<^verbatim>\<open>rawRegions\<close> and
  the set \<^verbatim>\<open>enumNames\<close> start empty in every call.
\<close>

definition classifyDocument :: "ts_api \<Rightarrow> string \<Rightarrow> ClassifiedRegion list option" where
  "classifyDocument ts sourceText =
     do {
       let sourceFile = createSourceFile ts sourceText;
       ctx \<leftarrow> visit sourceText sourceFile \<lparr>rawRegions = [], enumNames = {}\<rparr>;
       let ctx = collectComments ts sourceFile sourceText ctx;
       Some (resolveOverlaps (rawRegions ctx) (length sourceText))
     }"

section \<open>The calls of the entry point in one store\<close>

text \<open>
  In the engine \<^verbatim>\<open>rawRegions\<close> and \<^verbatim>\<open>enumNames\<close> are two objects of the heap: the array
  literal and \<^verbatim>\<open>new Set<string>()\<close> in the body of \<^verbatim>\<open>classifyDocument\<close> create them, and
  the closures \<^verbatim>\<open>addRegion\<close> and \<^verbatim>\<open>visit\<close> reach them through the two local constants.
  The objects of earlier calls stay in the heap. This section writes the call over an
  explicit store, the heap as the earlier calls left it: a map from addresses to objects
  and the next free address.
\<close>

datatype object = RegionArray "RawRegion list" | NameSet "string set"

record store =
  objects :: "nat \<Rightarrow> object option"
  nextRef :: nat

text \<open>The array literal and \<^verbatim>\<open>new Set()\<close>: a new object at the next free address.\<close>

definition alloc :: "object \<Rightarrow> store \<Rightarrow> nat \<times> store" where
  "alloc v s =
     (nextRef s, s\<lparr>objects := (objects s)(nextRef s \<mapsto> v), nextRef := Suc (nextRef s)\<rparr>)"

text \<open>What the closures read through the two references, and what they leave there.\<close>

definition regionsAt :: "store \<Rightarrow> nat \<Rightarrow> RawRegion list" where
  "regionsAt s a = (case objects s a of Some (RegionArray xs) \<Rightarrow> xs | _ \<Rightarrow> [])"

definition namesAt :: "store \<Rightarrow> nat \<Rightarrow> string set" where
  "namesAt s a = (case objects s a of Some (NameSet xs) \<Rightarrow> xs | _ \<Rightarrow> {})"

definition load :: "nat \<Rightarrow> nat \<Rightarrow> store \<Rightarrow> traversal" where
  "load rawRegionsRef enumNamesRef s =
     \<lparr>rawRegions = regionsAt s rawRegionsRef, enumNames = namesAt s enumNamesRef\<rparr>"

definition save :: "nat \<Rightarrow> nat \<Rightarrow> traversal \<Rightarrow> store \<Rightarrow> store" where
  "save rawRegionsRef enumNamesRef ctx s =
     s\<lparr>objects := (objects s)(rawRegionsRef \<mapsto> RegionArray (rawRegions ctx),
                               enumNamesRef \<mapsto> NameSet (enumNames ctx))\<rparr>"

text \<open>
  \<^verbatim>\<open>visit\<close> as a closure over the two references: the step of one node reads the two
  objects and writes them back, and the children are visited in the store it leaves.
\<close>

function visitS :: "nat \<Rightarrow> nat \<Rightarrow> string \<Rightarrow> node \<Rightarrow> store \<Rightarrow> store option" where
  "visitS rawRegionsRef enumNamesRef sourceText n s =
     (case visitNode sourceText n (load rawRegionsRef enumNamesRef s) of
        None \<Rightarrow> None
      | Some (ctx', kids) \<Rightarrow>
          foldOpt (visitS rawRegionsRef enumNamesRef sourceText) kids
            (save rawRegionsRef enumNamesRef ctx' s))"
  by pat_completeness auto
termination
proof (relation "measure (\<lambda>(rawRegionsRef, enumNamesRef, sourceText, n, s). size n)")
  show "wf (measure (\<lambda>(rawRegionsRef, enumNamesRef, sourceText, n, s). size n))" by simp
next
  fix rawRegionsRef enumNamesRef :: nat and sourceText n and s :: store and x2 ctx' kids x
    and u :: store
  assume "visitNode sourceText n (load rawRegionsRef enumNamesRef s) = Some x2"
    "(ctx', kids) = x2" "x \<in> set kids"
  then have "x \<in> set (forEachChild n)"
    using visitNode_kids[of sourceText n "load rawRegionsRef enumNamesRef s" ctx' kids] by auto
  then show "((rawRegionsRef, enumNamesRef, sourceText, x, u),
              (rawRegionsRef, enumNamesRef, sourceText, n, s))
             \<in> measure (\<lambda>(rawRegionsRef, enumNamesRef, sourceText, n, s). size n)"
    using size_child by simp
qed

declare visitS.simps [simp del]

text \<open>
  \<^verbatim>\<open>classifyDocument\<close> in a store. When the walk throws, the two objects are garbage; the
  store is then given as it was after the two allocations.
\<close>

definition classifyDocumentS ::
    "ts_api \<Rightarrow> string \<Rightarrow> store \<Rightarrow> ClassifiedRegion list option \<times> store" where
  "classifyDocumentS ts sourceText s0 =
     (let sourceFile = createSourceFile ts sourceText;
          (rawRegionsRef, s1) = alloc (RegionArray []) s0;
          (enumNamesRef, s2) = alloc (NameSet {}) s1
      in case visitS rawRegionsRef enumNamesRef sourceText sourceFile s2 of
           None \<Rightarrow> (None, s2)
         | Some s3 \<Rightarrow>
             let s4 = save rawRegionsRef enumNamesRef
                        (collectComments ts sourceFile sourceText
                           (load rawRegionsRef enumNamesRef s3)) s3
             in (Some (resolveOverlaps (regionsAt s4 rawRegionsRef) (length sourceText)), s4))"

text \<open>
  A sequence of calls, one text after the other, each in the store the calls before it
  left.
\<close>

fun runCalls ::
    "ts_api \<Rightarrow> string list \<Rightarrow> store \<Rightarrow> ClassifiedRegion list option list \<times> store" where
  "runCalls ts [] s = ([], s)"
| "runCalls ts (sourceText # later) s =
     (let (regions, s') = classifyDocumentS ts sourceText s;
          (rest, s'') = runCalls ts later s'
      in (regions # rest, s''))"

section \<open>The walk with a record of its visits\<close>

text \<open>
  \<^verbatim>\<open>visit\<close> again, keeping beside the state the list of its calls in the order they are
  made: the node of each call and the state in which the call starts.
\<close>

function visitLog ::
    "string \<Rightarrow> node \<Rightarrow> traversal \<times> (node \<times> traversal) list \<Rightarrow>
     (traversal \<times> (node \<times> traversal) list) option" where
  "visitLog sourceText n (ctx, calls) =
     (case visitNode sourceText n ctx of
        None \<Rightarrow> None
      | Some (ctx', kids) \<Rightarrow> foldOpt (visitLog sourceText) kids (ctx', calls @ [(n, ctx)]))"
  by pat_completeness auto
termination
proof (relation "measure (\<lambda>(sourceText, n, st). size n)")
  show "wf (measure (\<lambda>(sourceText, n, st). size n))" by simp
next
  fix sourceText n ctx and calls :: "(node \<times> traversal) list" and x2 ctx' kids x
    and u :: "traversal \<times> (node \<times> traversal) list"
  assume "visitNode sourceText n ctx = Some x2" "(ctx', kids) = x2" "x \<in> set kids"
  then have "x \<in> set (forEachChild n)" using visitNode_kids[of sourceText n ctx ctx' kids] by auto
  then show "((sourceText, x, u), (sourceText, n, (ctx, calls)))
             \<in> measure (\<lambda>(sourceText, n, st). size n)"
    using size_child by simp
qed

declare visitLog.simps [simp del]

section \<open>Vocabulary of the properties\<close>

text \<open>
  The definitions of this section are not part of the program: they name what the
  properties below are about.
\<close>

text \<open>A candidate covers an offset: \<open>start \<le> p < end\<close>.\<close>

definition covers :: "RawRegion \<Rightarrow> nat \<Rightarrow> bool" where
  "covers r p \<longleftrightarrow> start r \<le> int p \<and> int p < endp r"

text \<open>The recorded layer and priority of one offset.\<close>

definition cell :: "layerMaps \<Rightarrow> nat \<Rightarrow> SyntaxLayer option \<times> int" where
  "cell m p = (fst m ! p, snd m ! p)"

text \<open>What one candidate does to the record of one offset.\<close>

definition cellStep :: "nat \<Rightarrow> RawRegion \<Rightarrow> SyntaxLayer option \<times> int \<Rightarrow> SyntaxLayer option \<times> int" where
  "cellStep p r c = (if covers r p \<and> priority r > snd c then (Some (layer r), priority r) else c)"

text \<open>
  The invariant of the merging loop before iteration \<open>i\<close>: the offsets below
  \<open>currentStart\<close> are settled in \<open>result\<close>, those from \<open>currentStart\<close> to \<open>i\<close> form the
  current run.
\<close>

definition merge_inv :: "SyntaxLayer option list \<Rightarrow> nat \<Rightarrow> mergeState \<Rightarrow> bool" where
  "merge_inv pm i s \<longleftrightarrow>
     currentStart s \<le> i \<and> (0 < i \<longrightarrow> currentStart s < i) \<and>
     (\<forall>j. currentStart s \<le> j \<and> j < i \<longrightarrow> pm ! j = currentLayer s) \<and>
     (i = 0 \<longrightarrow> currentLayer s = None) \<and>
     (\<forall>r\<in>set (result s). 0 \<le> start r \<and> start r < endp r \<and> endp r \<le> int (currentStart s)) \<and>
     sorted_wrt (\<lambda>a b. endp a \<le> start b) (result s) \<and>
     successively (\<lambda>a b. endp a = start b \<longrightarrow> layer a \<noteq> layer b) (result s) \<and>
     (result s \<noteq> [] \<longrightarrow> endp (last (result s)) = int (currentStart s) \<longrightarrow>
        currentLayer s \<noteq> Some (layer (last (result s)))) \<and>
     (\<forall>p<currentStart s. getLayerAt (result s) (int p) = pm ! p)"

text \<open>
  The nesting depth of the specification: \<open>1\<close> at the opening bracket, one more for every
  \<^verbatim>\<open><\<close> and one less for every \<^verbatim>\<open>>\<close> among the offsets \<open>opn + 1, ..., q\<close>.
\<close>

definition bracketDelta :: "char option \<Rightarrow> int" where
  "bracketDelta c = (if c = Some CHR ''<'' then 1 else if c = Some CHR ''>'' then - 1 else 0)"

definition depthAfter :: "string \<Rightarrow> int \<Rightarrow> int \<Rightarrow> int" where
  "depthAfter s opn q = 1 + (\<Sum>j = opn + 1..q. bracketDelta (charAt s j))"

text \<open>
  Four candidates in emission order, for a text of four characters: a base-layer span,
  two type-layer spans that overlap at offset 1, and a library-layer span.
\<close>

definition example_candidates :: "RawRegion list" where
  "example_candidates =
     [\<lparr>start = 0, endp = 4, layer = javascript, priority = 1\<rparr>,
      \<lparr>start = 1, endp = 3, layer = typescript, priority = 3\<rparr>,
      \<lparr>start = 2, endp = 3, layer = react, priority = 4\<rparr>,
      \<lparr>start = 0, endp = 2, layer = typescript, priority = 3\<rparr>]"

text \<open>The fifth scenario of the specification, and a type-parameter list that is never closed.\<close>

definition nested_generics_text :: string where
  "nested_generics_text = ''new Map<string, Set<number>>()''"

definition unclosed_generics_text :: string where
  "unclosed_generics_text = ''function f<T(x) {}''"

text \<open>
  A candidate as \<^verbatim>\<open>addRegion\<close> makes it: not empty, with the priority of its layer.
\<close>

definition well_formed :: "RawRegion \<Rightarrow> bool" where
  "well_formed r \<longleftrightarrow> priority r = PRIORITY (layer r) \<and> start r < endp r"

text \<open>
  The state after some calls of \<^verbatim>\<open>addRegion\<close>: the earlier candidates, then new ones;
  \<open>extends\<close> when the tracked names are the same as well.
\<close>

definition grows :: "traversal \<Rightarrow> traversal \<Rightarrow> bool" where
  "grows ctx ctx' \<longleftrightarrow> (\<exists>rs. rawRegions ctx' = rawRegions ctx @ rs \<and> list_all well_formed rs)"

definition extends :: "traversal \<Rightarrow> traversal \<Rightarrow> bool" where
  "extends ctx ctx' \<longleftrightarrow>
     enumNames ctx' = enumNames ctx \<and>
     (\<exists>rs. rawRegions ctx' = rawRegions ctx @ rs \<and> list_all well_formed rs)"

text \<open>The name that the visit of a node adds to the tracked names.\<close>

definition declaredEnum :: "node \<Rightarrow> string set" where
  "declaredEnum n =
     (if kind n = ''EnumDeclaration''
      then (case get ''name'' n of None \<Rightarrow> {} | Some nm \<Rightarrow> {textOf nm})
      else {})"

text \<open>
  The properties that the declarations of the TypeScript compiler give to every node the
  parser returns, as far as the classifier reads them without a test: the children that
  the types make mandatory are there, and the elements of named imports and exports are
  specifiers.
\<close>

definition typedNode :: "node \<Rightarrow> bool" where
  "typedNode n \<longleftrightarrow>
     (kind n = ''JsxElement'' \<longrightarrow>
        (case get ''openingElement'' n of
           None \<Rightarrow> False
         | Some opening \<Rightarrow> get ''tagName'' opening \<noteq> None \<and> get ''attributes'' opening \<noteq> None)) \<and>
     (kind n \<in> {''JsxSelfClosingElement'', ''JsxOpeningElement'', ''JsxClosingElement''} \<longrightarrow>
        get ''tagName'' n \<noteq> None) \<and>
     (kind n \<in> {''JsxAttribute'', ''PropertyAssignment'', ''ImportSpecifier'', ''ExportSpecifier''} \<longrightarrow>
        get ''name'' n \<noteq> None) \<and>
     (kind n \<in> {''ExpressionStatement'', ''ExpressionWithTypeArguments'', ''AsExpression'',
                 ''TypeAssertionExpression'', ''SatisfiesExpression'', ''NonNullExpression'',
                 ''PropertyAccessExpression'', ''CallExpression''} \<longrightarrow>
        get ''expression'' n \<noteq> None) \<and>
     (kind n = ''VariableStatement'' \<longrightarrow> get ''declarationList'' n \<noteq> None) \<and>
     (kind n = ''NamedImports'' \<longrightarrow>
        list_all (\<lambda>e. kind e = ''ImportSpecifier'') (getAll ''elements'' n)) \<and>
     (kind n = ''NamedExports'' \<longrightarrow>
        list_all (\<lambda>e. kind e = ''ExportSpecifier'') (getAll ''elements'' n)) \<and>
     (kind n = ''TypeReference'' \<longrightarrow> get ''typeName'' n \<noteq> None)"

text \<open>A tree all of whose nodes are typed so.\<close>

function wellTyped :: "node \<Rightarrow> bool" where
  "wellTyped n \<longleftrightarrow> typedNode n \<and> (\<forall>c\<in>set (forEachChild n). wellTyped c)"
  by pat_completeness auto
termination
  by (relation "measure size") (auto simp: size_child)

declare wellTyped.simps [simp del]

text \<open>
  What the comment scanner adds: base-layer candidates only, and no tracked name.
\<close>

definition comments_added :: "traversal \<Rightarrow> traversal \<Rightarrow> bool" where
  "comments_added ctx ctx' \<longleftrightarrow>
     enumNames ctx' = enumNames ctx \<and>
     (\<exists>cs. rawRegions ctx' = rawRegions ctx @ cs \<and>
           list_all (\<lambda>r. layer r = javascript \<and> well_formed r) cs)"

text \<open>
  A source file without statements: what the parser returns for a text of white space.
\<close>

definition isBlankSourceFile :: "node \<Rightarrow> bool" where
  "isBlankSourceFile t \<longleftrightarrow>
     kind t = ''SourceFile'' \<and>
     list_all (\<lambda>c. kind c = ''EndOfFileToken'' \<and> forEachChild c = []) (forEachChild t)"

subsection \<open>Example documents\<close>

text \<open>
  Syntax trees as the parser builds them, written out for the examples below: a node
  without text, flags or tokens, an identifier, and a parser that finds no comment.
\<close>

definition mkNode :: "string \<Rightarrow> int \<Rightarrow> int \<Rightarrow> int \<Rightarrow> (string \<times> node) list \<Rightarrow> node" where
  "mkNode k fullStart s e ps = Node k fullStart s e [] False 0 [] ps"

definition mkIdentifier :: "int \<Rightarrow> int \<Rightarrow> int \<Rightarrow> string \<Rightarrow> node" where
  "mkIdentifier fullStart s e name = Node ''Identifier'' fullStart s e name False 0 [] []"

definition no_comments :: "(string \<Rightarrow> node) \<Rightarrow> ts_api" where
  "no_comments parse =
     \<lparr>createSourceFile = parse,
      getLeadingCommentRanges = (\<lambda>_ _. []),
      getTrailingCommentRanges = (\<lambda>_ _. [])\<rparr>"

text \<open>
  \<^verbatim>\<open>const x = 1; const y = 2;\<close>: two variable statements with one blank between them.
\<close>

definition two_statements_text :: string where
  "two_statements_text = ''const x = 1; const y = 2;''"

definition two_statements_tree :: node where
  "two_statements_tree =
     mkNode ''SourceFile'' 0 0 25
       [(''statements'',
           mkNode ''VariableStatement'' 0 0 12
             [(''declarationList'',
                 mkNode ''VariableDeclarationList'' 0 0 11
                   [(''declarations'',
                       mkNode ''VariableDeclaration'' 5 6 11
                         [(''name'', mkIdentifier 5 6 7 ''x''),
                          (''initializer'', mkNode ''NumericLiteral'' 9 10 11 [])])])]),
        (''statements'',
           mkNode ''VariableStatement'' 12 13 25
             [(''declarationList'',
                 mkNode ''VariableDeclarationList'' 12 13 24
                   [(''declarations'',
                       mkNode ''VariableDeclaration'' 18 19 24
                         [(''name'', mkIdentifier 18 19 20 ''y''),
                          (''initializer'', mkNode ''NumericLiteral'' 22 23 24 [])])])]),
        (''endOfFileToken'', mkNode ''EndOfFileToken'' 25 25 25 [])]"

definition two_statements_ts :: ts_api where
  "two_statements_ts = no_comments (\<lambda>_. two_statements_tree)"

text \<open>
  A text of white space (blanks, a line feed, a tab) and the source file of a text without
  a token, whose only child is the end-of-file token.
\<close>

definition whitespace_text :: string where
  "whitespace_text = [CHR 0x20, CHR 0x20, CHR 0x0A, CHR 0x09, CHR 0x20]"

definition blankSourceFile :: "int \<Rightarrow> node" where
  "blankSourceFile len =
     mkNode ''SourceFile'' 0 len len
       [(''endOfFileToken'', mkNode ''EndOfFileToken'' 0 len len [])]"

definition blank_ts :: ts_api where
  "blank_ts = no_comments (\<lambda>sourceText. blankSourceFile (int (length sourceText)))"




text \<open>
  The names of the enum declarations among the first \<open>k\<close> calls of a walk.
\<close>

definition enumsBefore :: "(node \<times> traversal) list \<Rightarrow> nat \<Rightarrow> string set" where
  "enumsBefore calls k = (\<Union>c\<in>set (take k calls). declaredEnum (fst c))"

text \<open>
  A piece of a walk: from the state \<open>ctx\<close> the calls \<open>new\<close> are made and leave the state
  \<open>ctx'\<close>. Every call starts with the tracked names of \<open>ctx\<close> and those declared at the
  calls before it, and what its own step adds is still there in \<open>ctx'\<close>.
\<close>

definition walked :: "string \<Rightarrow> traversal \<Rightarrow> (node \<times> traversal) list \<Rightarrow> traversal \<Rightarrow> bool" where
  "walked sourceText ctx new ctx' \<longleftrightarrow>
     grows ctx ctx' \<and>
     enumNames ctx' = enumNames ctx \<union> enumsBefore new (length new) \<and>
     (\<forall>k<length new.
        enumNames (snd (new ! k)) = enumNames ctx \<union> enumsBefore new k \<and>
        (\<forall>c' kids. visitNode sourceText (fst (new ! k)) (snd (new ! k)) = Some (c', kids) \<longrightarrow>
           grows c' ctx'))"


subsection \<open>More example documents\<close>

text \<open>\<^verbatim>\<open>x as T\<close>: an expression and its type assertion, side by side.\<close>

definition as_text :: string where
  "as_text = ''x as T''"

definition as_tree :: node where
  "as_tree =
     mkNode ''SourceFile'' 0 0 6
       [(''statements'',
           mkNode ''ExpressionStatement'' 0 0 6
             [(''expression'',
                 mkNode ''AsExpression'' 0 0 6
                   [(''expression'', mkIdentifier 0 0 1 ''x''),
                    (''type'',
                       mkNode ''TypeReference'' 4 5 6
                         [(''typeName'', mkIdentifier 4 5 6 ''T'')])])]),
        (''endOfFileToken'', mkNode ''EndOfFileToken'' 6 6 6 [])]"

definition as_ts :: ts_api where
  "as_ts = no_comments (\<lambda>_. as_tree)"









text \<open>
  An enum declaration and an access to its member, in the two orders:
  \<^verbatim>\<open>enum E { A } E.A;\<close> and \<^verbatim>\<open>E.A; enum E { A }\<close>.
\<close>

definition enum_then_access_text :: string where
  "enum_then_access_text = ''enum E { A } E.A;''"

definition early_enum :: node where
  "early_enum =
     mkNode ''EnumDeclaration'' 0 0 12
       [(''name'', mkIdentifier 4 5 6 ''E''),
        (''members'', mkNode ''EnumMember'' 8 9 10 [(''name'', mkIdentifier 8 9 10 ''A'')])]"

definition late_access :: node where
  "late_access =
     mkNode ''PropertyAccessExpression'' 12 13 16
       [(''expression'', mkIdentifier 12 13 14 ''E''),
        (''name'', mkIdentifier 15 15 16 ''A'')]"

definition enum_then_access_tree :: node where
  "enum_then_access_tree =
     mkNode ''SourceFile'' 0 0 17
       [(''statements'', early_enum),
        (''statements'',
           mkNode ''ExpressionStatement'' 12 13 17 [(''expression'', late_access)]),
        (''endOfFileToken'', mkNode ''EndOfFileToken'' 17 17 17 [])]"

definition access_then_enum_text :: string where
  "access_then_enum_text = ''E.A; enum E { A }''"

definition early_access :: node where
  "early_access =
     mkNode ''PropertyAccessExpression'' 0 0 3
       [(''expression'', mkIdentifier 0 0 1 ''E''),
        (''name'', mkIdentifier 2 2 3 ''A'')]"

definition late_enum :: node where
  "late_enum =
     mkNode ''EnumDeclaration'' 4 5 17
       [(''name'', mkIdentifier 9 10 11 ''E''),
        (''members'', mkNode ''EnumMember'' 13 14 15 [(''name'', mkIdentifier 13 14 15 ''A'')])]"

definition access_then_enum_tree :: node where
  "access_then_enum_tree =
     mkNode ''SourceFile'' 0 0 17
       [(''statements'',
           mkNode ''ExpressionStatement'' 0 0 4 [(''expression'', early_access)]),
        (''statements'', late_enum),
        (''endOfFileToken'', mkNode ''EndOfFileToken'' 17 17 17 [])]"

text \<open>
  Two documents, \<^verbatim>\<open>E.A;\<close> and \<^verbatim>\<open>enum E { A }\<close>, and a parser for the two (the tree of an
  empty file stands for every other text).
\<close>

definition access_text :: string where
  "access_text = ''E.A;''"

definition access_tree :: node where
  "access_tree =
     mkNode ''SourceFile'' 0 0 4
       [(''statements'',
           mkNode ''ExpressionStatement'' 0 0 4 [(''expression'', early_access)]),
        (''endOfFileToken'', mkNode ''EndOfFileToken'' 4 4 4 [])]"

definition enum_text :: string where
  "enum_text = ''enum E { A }''"

definition enum_tree :: node where
  "enum_tree =
     mkNode ''SourceFile'' 0 0 12
       [(''statements'', early_enum),
        (''endOfFileToken'', mkNode ''EndOfFileToken'' 12 12 12 [])]"

definition two_documents_ts :: ts_api where
  "two_documents_ts =
     no_comments (\<lambda>sourceText.
       if sourceText = access_text then access_tree
       else if sourceText = enum_text then enum_tree
       else blankSourceFile (int (length sourceText)))"

definition empty_store :: store where
  "empty_store = \<lparr>objects = (\<lambda>_. None), nextRef = 0\<rparr>"







section \<open>The overlap resolver: lemmas\<close>

lemma paintCell_length:
  "length (fst (paintCell region i m)) = length (fst m) \<and>
   length (snd (paintCell region i m)) = length (snd m)"
  by (cases m) (simp add: paintCell_def)

lemma paintFrom_length:
  "length (fst (paintFrom region n i m)) = length (fst m) \<and>
   length (snd (paintFrom region n i m)) = length (snd m)"
proof (induction region n i m rule: paintFrom.induct)
  case (1 region textLength i m)
  show ?case
  proof (cases "i < endp region \<and> i < int textLength")
    case True
    have step: "paintFrom region textLength i m =
        paintFrom region textLength (i + 1) (paintCell region i m)"
      using True by (subst paintFrom.simps) simp
    show ?thesis
      unfolding step using 1[OF True] by (simp add: paintCell_length)
  next
    case False
    then have "paintFrom region textLength i m = m"
      by (subst paintFrom.simps) auto
    then show ?thesis by simp
  qed
qed

lemma paintCell_cell:
  "length (fst m) = n \<Longrightarrow> length (snd m) = n \<Longrightarrow> p < n \<Longrightarrow> i < int n \<Longrightarrow>
   cell (paintCell region i m) p =
     (if i = int p \<and> priority region > snd m ! p
      then (Some (layer region), priority region) else cell m p)"
  by (cases m; cases "nat i = p") (auto simp: paintCell_def cell_def)

lemma paintFrom_cell:
  "length (fst m) = n \<Longrightarrow> length (snd m) = n \<Longrightarrow> p < n \<Longrightarrow>
   cell (paintFrom region n i m) p =
     (if i \<le> int p \<and> int p < endp region \<and> priority region > snd m ! p
      then (Some (layer region), priority region) else cell m p)"
proof (induction region n i m rule: paintFrom.induct)
  case (1 region textLength i m)
  show ?case
  proof (cases "i < endp region \<and> i < int textLength")
    case False
    then show ?thesis using 1(4) by (subst paintFrom.simps) auto
  next
    case True
    let ?m' = "paintCell region i m"
    have len: "length (fst ?m') = textLength" "length (snd ?m') = textLength"
      using 1(2,3) by (simp_all add: paintCell_length)
    have step: "paintFrom region textLength i m = paintFrom region textLength (i + 1) ?m'"
      using True by (subst paintFrom.simps) simp
    have IH: "cell (paintFrom region textLength (i + 1) ?m') p =
      (if i + 1 \<le> int p \<and> int p < endp region \<and> priority region > snd ?m' ! p
       then (Some (layer region), priority region) else cell ?m' p)"
      using 1(1)[OF True len(1) len(2) 1(4)] .
    have c: "cell ?m' p = (if i = int p \<and> priority region > snd m ! p
      then (Some (layer region), priority region) else cell m p)"
      using paintCell_cell[OF 1(2,3,4)] True by simp
    then have s: "snd ?m' ! p = (if i = int p \<and> priority region > snd m ! p
      then priority region else snd m ! p)"
      by (auto simp: cell_def split: if_splits)
    show ?thesis unfolding step IH c s using True by auto
  qed
qed

lemma paintRegion_cell:
  "length (fst m) = n \<Longrightarrow> length (snd m) = n \<Longrightarrow> p < n \<Longrightarrow>
   cell (paintRegion n r m) p = cellStep p r (cell m p)"
  unfolding paintRegion_def
  by (subst paintFrom_cell) (auto simp: cellStep_def covers_def cell_def)

lemma paintRegion_length:
  "length (fst (paintRegion n r m)) = length (fst m) \<and>
   length (snd (paintRegion n r m)) = length (snd m)"
  by (simp add: paintRegion_def paintFrom_length)

lemma fold_paintRegion_length:
  "length (fst (fold (paintRegion n) rs m)) = length (fst m) \<and>
   length (snd (fold (paintRegion n) rs m)) = length (snd m)"
  by (induction rs arbitrary: m) (simp_all add: paintRegion_length)

lemma fold_paintRegion_cell:
  "length (fst m) = n \<Longrightarrow> length (snd m) = n \<Longrightarrow> p < n \<Longrightarrow>
   cell (fold (paintRegion n) rs m) p = fold (cellStep p) rs (cell m p)"
proof (induction rs arbitrary: m)
  case Nil
  then show ?case by simp
next
  case (Cons r rs)
  have "cell (fold (paintRegion n) rs (paintRegion n r m)) p =
        fold (cellStep p) rs (cell (paintRegion n r m) p)"
    using Cons.prems by (intro Cons.IH) (simp_all add: paintRegion_length)
  then show ?case using Cons.prems by (simp add: paintRegion_cell)
qed

lemma paintAll_cell:
  "p < n \<Longrightarrow> cell (paintAll rs n) p = fold (cellStep p) rs (None, 0)"
  unfolding paintAll_def
  by (subst fold_paintRegion_cell[where n = n]) (simp_all add: cell_def)

lemma paintAll_length:
  "length (fst (paintAll rs n)) = n \<and> length (snd (paintAll rs n)) = n"
  unfolding paintAll_def using fold_paintRegion_length[of n rs "(replicate n None, replicate n 0)"]
  by simp

lemma fold_cellStep_snoc: "fold (cellStep p) (rs @ [r]) c = cellStep p r (fold (cellStep p) rs c)"
  by simp

lemma fold_cellStep_char:
  "fold (cellStep p) rs (None, 0) = (l, q) \<Longrightarrow>
     0 \<le> q \<and> (\<forall>j<length rs. covers (rs ! j) p \<longrightarrow> priority (rs ! j) \<le> q) \<and>
     (l = None \<longleftrightarrow> q = 0) \<and>
     (\<forall>L. l = Some L \<longrightarrow>
        (\<exists>k<length rs. covers (rs ! k) p \<and> layer (rs ! k) = L \<and> priority (rs ! k) = q \<and>
           (\<forall>j<k. covers (rs ! j) p \<longrightarrow> priority (rs ! j) < q)))"
proof (induction rs arbitrary: l q rule: rev_induct)
  case Nil
  then show ?case by simp
next
  case (snoc r rs)
  obtain l0 q0 where f: "fold (cellStep p) rs (None, 0) = (l0, q0)"
    by (cases "fold (cellStep p) rs (None, 0)") auto
  note IH = snoc.IH[OF f]
  have st: "cellStep p r (l0, q0) = (l, q)"
    using snoc.prems f by simp
  show ?case
  proof (cases "covers r p \<and> priority r > q0")
    case True
    then have lq: "l = Some (layer r)" "q = priority r"
      using st by (auto simp: cellStep_def)
    have a: "\<forall>j<length (rs @ [r]). covers ((rs @ [r]) ! j) p \<longrightarrow> priority ((rs @ [r]) ! j) \<le> q"
      using IH True lq by (auto simp: nth_append less_Suc_eq)
    have b: "\<forall>j<length rs. covers ((rs @ [r]) ! j) p \<longrightarrow> priority ((rs @ [r]) ! j) < q"
      using IH True lq by (fastforce simp: nth_append)
    have c: "\<exists>k<length (rs @ [r]). covers ((rs @ [r]) ! k) p \<and> layer ((rs @ [r]) ! k) = layer r \<and>
        priority ((rs @ [r]) ! k) = q \<and>
        (\<forall>j<k. covers ((rs @ [r]) ! j) p \<longrightarrow> priority ((rs @ [r]) ! j) < q)"
      using True lq b by (intro exI[of _ "length rs"]) simp
    show ?thesis using a c lq IH True by auto
  next
    case False
    then have lq: "l = l0" "q = q0"
      using st by (auto simp: cellStep_def)
    have a: "\<forall>j<length (rs @ [r]). covers ((rs @ [r]) ! j) p \<longrightarrow> priority ((rs @ [r]) ! j) \<le> q"
      using IH False lq by (auto simp: nth_append less_Suc_eq)
    have c: "\<forall>L. l = Some L \<longrightarrow> (\<exists>k<length (rs @ [r]). covers ((rs @ [r]) ! k) p \<and> layer ((rs @ [r]) ! k) = L \<and>
        priority ((rs @ [r]) ! k) = q \<and>
        (\<forall>j<k. covers ((rs @ [r]) ! j) p \<longrightarrow> priority ((rs @ [r]) ! j) < q))"
    proof (intro allI impI)
      fix L assume "l = Some L"
      then obtain k where k: "k < length rs" "covers (rs ! k) p" "layer (rs ! k) = L"
        "priority (rs ! k) = q" "\<forall>j<k. covers (rs ! j) p \<longrightarrow> priority (rs ! j) < q"
        using IH lq by blast
      then show "\<exists>k<length (rs @ [r]). covers ((rs @ [r]) ! k) p \<and> layer ((rs @ [r]) ! k) = L \<and>
        priority ((rs @ [r]) ! k) = q \<and>
        (\<forall>j<k. covers ((rs @ [r]) ! j) p \<longrightarrow> priority ((rs @ [r]) ! j) < q)"
        by (intro exI[of _ k]) (auto simp: nth_append)
    qed
    show ?thesis using a c lq IH by auto
  qed
qed

lemma getLayerAt_snoc:
  "getLayerAt (rs @ [r]) x =
     (case getLayerAt rs x of Some l \<Rightarrow> Some l
      | None \<Rightarrow> if start r \<le> x \<and> x < endp r then Some (layer r) else None)"
  by (induction rs) (auto simp: getLayerAt_def split: option.splits)

lemma getLayerAt_None:
  "\<forall>r\<in>set rs. endp r \<le> x \<Longrightarrow> getLayerAt rs x = None"
  by (auto simp: getLayerAt_def find_None_iff)

lemma merge_inv_init: "merge_inv pm 0 \<lparr>result = [], currentLayer = None, currentStart = 0\<rparr>"
  by (simp add: merge_inv_def)

lemma merge_invD:
  assumes "merge_inv pm i s"
  shows "currentStart s \<le> i"
    and "0 < i \<Longrightarrow> currentStart s < i"
    and "\<And>j. currentStart s \<le> j \<Longrightarrow> j < i \<Longrightarrow> pm ! j = currentLayer s"
    and "i = 0 \<Longrightarrow> currentLayer s = None"
    and "\<And>r. r \<in> set (result s) \<Longrightarrow> 0 \<le> start r \<and> start r < endp r \<and> endp r \<le> int (currentStart s)"
    and "sorted_wrt (\<lambda>a b. endp a \<le> start b) (result s)"
    and "successively (\<lambda>a b. endp a = start b \<longrightarrow> layer a \<noteq> layer b) (result s)"
    and "result s \<noteq> [] \<Longrightarrow> endp (last (result s)) = int (currentStart s) \<Longrightarrow>
        currentLayer s \<noteq> Some (layer (last (result s)))"
    and "\<And>p. p < currentStart s \<Longrightarrow> getLayerAt (result s) (int p) = pm ! p"
  using assms unfolding merge_inv_def by blast+

lemma merge_invI:
  assumes "cs \<le> i"
    and "0 < i \<Longrightarrow> cs < i"
    and "\<And>j. cs \<le> j \<Longrightarrow> j < i \<Longrightarrow> pm ! j = cl"
    and "i = 0 \<Longrightarrow> cl = None"
    and "\<And>r. r \<in> set res \<Longrightarrow> 0 \<le> start r \<and> start r < endp r \<and> endp r \<le> int cs"
    and "sorted_wrt (\<lambda>a b. endp a \<le> start b) res"
    and "successively (\<lambda>a b. endp a = start b \<longrightarrow> layer a \<noteq> layer b) res"
    and "res \<noteq> [] \<Longrightarrow> endp (last res) = int cs \<Longrightarrow> cl \<noteq> Some (layer (last res))"
    and "\<And>p. p < cs \<Longrightarrow> getLayerAt res (int p) = pm ! p"
  shows "merge_inv pm i \<lparr>result = res, currentLayer = cl, currentStart = cs\<rparr>"
  unfolding merge_inv_def using assms by simp

lemma uncovered_run:
  assumes "merge_inv pm i s" and "currentStart s \<le> p"
  shows "getLayerAt (result s) (int p) = None"
proof (rule getLayerAt_None, rule ballI)
  fix r assume "r \<in> set (result s)"
  then have "endp r \<le> int (currentStart s)" using merge_invD(5)[OF assms(1)] by blast
  then show "endp r \<le> int p" using assms(2) by linarith
qed

lemma merge_inv_step:
  assumes inv: "merge_inv pm i s"
  shows "merge_inv pm (Suc i) (mergeStep pm i s)"
proof (cases "pm ! i = currentLayer s")
  case True
  then have st: "mergeStep pm i s = s" by (simp add: mergeStep_def)
  have s: "s = \<lparr>result = result s, currentLayer = currentLayer s, currentStart = currentStart s\<rparr>"
    by simp
  have "merge_inv pm (Suc i) \<lparr>result = result s, currentLayer = currentLayer s, currentStart = currentStart s\<rparr>"
  proof (rule merge_invI)
    show "currentStart s \<le> Suc i" using merge_invD(1)[OF inv] by simp
    show "currentStart s < Suc i" using merge_invD(1)[OF inv] by simp
    show "pm ! j = currentLayer s" if "currentStart s \<le> j" "j < Suc i" for j
      using that merge_invD(3)[OF inv, of j] True by (cases "j = i") auto
    show "currentLayer s = None" if "Suc i = 0" using that by simp
    show "0 \<le> start r \<and> start r < endp r \<and> endp r \<le> int (currentStart s)"
      if "r \<in> set (result s)" for r using that merge_invD(5)[OF inv] by blast
    show "sorted_wrt (\<lambda>a b. endp a \<le> start b) (result s)" by (rule merge_invD(6)[OF inv])
    show "successively (\<lambda>a b. endp a = start b \<longrightarrow> layer a \<noteq> layer b) (result s)"
      by (rule merge_invD(7)[OF inv])
    show "currentLayer s \<noteq> Some (layer (last (result s)))"
      if "result s \<noteq> []" "endp (last (result s)) = int (currentStart s)"
      using that merge_invD(8)[OF inv] by blast
    show "getLayerAt (result s) (int p) = pm ! p" if "p < currentStart s" for p
      using that merge_invD(9)[OF inv] by blast
  qed
  then show ?thesis unfolding st using s by simp
next
  case ne: False
  show ?thesis
  proof (cases "currentLayer s")
    case None
    then have st: "mergeStep pm i s = \<lparr>result = result s, currentLayer = pm ! i, currentStart = i\<rparr>"
      using ne by (simp add: mergeStep_def)
    show ?thesis unfolding st
    proof (rule merge_invI)
      show "i \<le> Suc i" "i < Suc i" by simp_all
      show "pm ! j = pm ! i" if "i \<le> j" "j < Suc i" for j
        using that by (cases "j = i") auto
      show "pm ! i = None" if "Suc i = 0" using that by simp
      show "0 \<le> start r \<and> start r < endp r \<and> endp r \<le> int i"
        if "r \<in> set (result s)" for r
        using merge_invD(5)[OF inv that] merge_invD(1)[OF inv] by linarith
      show "sorted_wrt (\<lambda>a b. endp a \<le> start b) (result s)" by (rule merge_invD(6)[OF inv])
      show "successively (\<lambda>a b. endp a = start b \<longrightarrow> layer a \<noteq> layer b) (result s)"
        by (rule merge_invD(7)[OF inv])
      show "pm ! i \<noteq> Some (layer (last (result s)))"
        if ne: "result s \<noteq> []" and e: "endp (last (result s)) = int i"
      proof -
        have m: "last (result s) \<in> set (result s)" using ne by simp
        have b: "0 \<le> start (last (result s))" "start (last (result s)) < endp (last (result s))"
          "endp (last (result s)) \<le> int (currentStart s)"
          using merge_invD(5)[OF inv m] by simp_all
        have "0 < i" using b e by linarith
        then have "currentStart s < i" using merge_invD(2)[OF inv] by simp
        then have False using b e by linarith
        then show ?thesis ..
      qed
      show "getLayerAt (result s) (int p) = pm ! p" if "p < i" for p
      proof (cases "p < currentStart s")
        case True
        then show ?thesis using merge_invD(9)[OF inv] by blast
      next
        case False
        then have le: "currentStart s \<le> p" by simp
        have "pm ! p = None" using merge_invD(3)[OF inv le that] None by simp
        then show ?thesis using uncovered_run[OF inv le] by simp
      qed
    qed
  next
    case (Some cur)
    define r where "r = \<lparr>start = int (currentStart s), endp = int i, layer = cur\<rparr>"
    have rsel: "start r = int (currentStart s)" "endp r = int i" "layer r = cur"
      by (simp_all add: r_def)
    have st: "mergeStep pm i s = \<lparr>result = result s @ [r], currentLayer = pm ! i, currentStart = i\<rparr>"
      using ne Some by (simp add: mergeStep_def r_def)
    have ipos: "0 < i"
      using merge_invD(4)[OF inv] Some by (cases "i = 0") auto
    have lt: "currentStart s < i" using merge_invD(2)[OF inv ipos] .
    show ?thesis unfolding st
    proof (rule merge_invI)
      show "i \<le> Suc i" "i < Suc i" by simp_all
      show "pm ! j = pm ! i" if "i \<le> j" "j < Suc i" for j
        using that by (cases "j = i") auto
      show "pm ! i = None" if "Suc i = 0" using that by simp
      show "0 \<le> start x \<and> start x < endp x \<and> endp x \<le> int i"
        if "x \<in> set (result s @ [r])" for x
      proof (cases "x = r")
        case True
        then show ?thesis using rsel lt by simp
      next
        case False
        then have "x \<in> set (result s)" using that by simp
        then show ?thesis using merge_invD(5)[OF inv, of x] merge_invD(1)[OF inv] by linarith
      qed
      show "sorted_wrt (\<lambda>a b. endp a \<le> start b) (result s @ [r])"
        using merge_invD(6)[OF inv] merge_invD(5)[OF inv] rsel
        by (simp add: sorted_wrt_append)
      show "successively (\<lambda>a b. endp a = start b \<longrightarrow> layer a \<noteq> layer b) (result s @ [r])"
        using merge_invD(7)[OF inv] merge_invD(8)[OF inv] Some rsel
        by (auto simp: successively_append_iff)
      show "pm ! i \<noteq> Some (layer (last (result s @ [r])))"
        using ne Some rsel by simp
      show "getLayerAt (result s @ [r]) (int p) = pm ! p" if "p < i" for p
      proof (cases "p < currentStart s")
        case True
        then have "getLayerAt (result s) (int p) = pm ! p"
          using merge_invD(9)[OF inv] by blast
        then show ?thesis using True rsel
          by (cases "pm ! p") (simp_all add: getLayerAt_snoc)
      next
        case False
        then have le: "currentStart s \<le> p" by simp
        have "pm ! p = Some cur" using merge_invD(3)[OF inv le that] Some by simp
        then show ?thesis using uncovered_run[OF inv le] le that rsel
          by (simp add: getLayerAt_snoc)
      qed
    qed
  qed
qed

lemma mergeLoop_Suc: "mergeLoop pm (Suc n) = mergeStep pm n (mergeLoop pm n)"
  by (simp add: mergeLoop_def)

lemma merge_inv_loop: "merge_inv pm n (mergeLoop pm n)"
proof (induction n)
  case 0
  show ?case by (simp add: mergeLoop_def merge_inv_init)
next
  case (Suc n)
  then show ?case by (simp only: mergeLoop_Suc merge_inv_step)
qed

lemma mergeRuns_props:
  shows "sorted_wrt (\<lambda>a b. endp a \<le> start b) (mergeRuns pm n)"
    and "successively (\<lambda>a b. endp a = start b \<longrightarrow> layer a \<noteq> layer b) (mergeRuns pm n)"
    and "\<And>r. r \<in> set (mergeRuns pm n) \<Longrightarrow> 0 \<le> start r \<and> start r < endp r \<and> endp r \<le> int n"
    and "\<And>p. p < n \<Longrightarrow> getLayerAt (mergeRuns pm n) (int p) = pm ! p"
proof -
  define s where "s = mergeLoop pm n"
  have inv: "merge_inv pm n s" unfolding s_def by (rule merge_inv_loop)
  have all: "sorted_wrt (\<lambda>a b. endp a \<le> start b) (mergeRuns pm n) \<and>
     successively (\<lambda>a b. endp a = start b \<longrightarrow> layer a \<noteq> layer b) (mergeRuns pm n) \<and>
     (\<forall>r. r \<in> set (mergeRuns pm n) \<longrightarrow> 0 \<le> start r \<and> start r < endp r \<and> endp r \<le> int n) \<and>
     (\<forall>p. p < n \<longrightarrow> getLayerAt (mergeRuns pm n) (int p) = pm ! p)"
  proof (cases "currentLayer s")
    case None
    then have eq: "mergeRuns pm n = result s" by (simp add: mergeRuns_def s_def Let_def)
    have lay: "getLayerAt (result s) (int p) = pm ! p" if "p < n" for p
    proof (cases "p < currentStart s")
      case True
      then show ?thesis using merge_invD(9)[OF inv] by blast
    next
      case False
      then have le: "currentStart s \<le> p" by simp
      have "pm ! p = None" using merge_invD(3)[OF inv le that] None by simp
      then show ?thesis using uncovered_run[OF inv le] by simp
    qed
    have reg: "0 \<le> start r \<and> start r < endp r \<and> endp r \<le> int n" if "r \<in> set (result s)" for r
      using merge_invD(5)[OF inv that] merge_invD(1)[OF inv] by linarith
    show ?thesis unfolding eq using merge_invD(6,7)[OF inv] lay reg by blast
  next
    case (Some cur)
    define r where "r = \<lparr>start = int (currentStart s), endp = int n, layer = cur\<rparr>"
    have rsel: "start r = int (currentStart s)" "endp r = int n" "layer r = cur"
      by (simp_all add: r_def)
    have eq: "mergeRuns pm n = result s @ [r]"
      using Some by (simp add: mergeRuns_def s_def r_def Let_def)
    have ipos: "0 < n"
      using merge_invD(4)[OF inv] Some by (cases "n = 0") auto
    have lt: "currentStart s < n" using merge_invD(2)[OF inv ipos] .
    have reg: "0 \<le> start x \<and> start x < endp x \<and> endp x \<le> int n"
        if "x \<in> set (result s @ [r])" for x
    proof (cases "x = r")
      case True
      then show ?thesis using rsel lt by simp
    next
      case False
      then have "x \<in> set (result s)" using that by simp
      then show ?thesis using merge_invD(5)[OF inv, of x] merge_invD(1)[OF inv] by linarith
    qed
    have srt: "sorted_wrt (\<lambda>a b. endp a \<le> start b) (result s @ [r])"
      using merge_invD(6)[OF inv] merge_invD(5)[OF inv] rsel
      by (simp add: sorted_wrt_append)
    have suc: "successively (\<lambda>a b. endp a = start b \<longrightarrow> layer a \<noteq> layer b) (result s @ [r])"
      using merge_invD(7)[OF inv] merge_invD(8)[OF inv] Some rsel
      by (auto simp: successively_append_iff)
    have lay: "getLayerAt (result s @ [r]) (int p) = pm ! p" if "p < n" for p
    proof (cases "p < currentStart s")
      case True
      then have "getLayerAt (result s) (int p) = pm ! p"
        using merge_invD(9)[OF inv] by blast
      then show ?thesis using True rsel
        by (cases "pm ! p") (simp_all add: getLayerAt_snoc)
    next
      case False
      then have le: "currentStart s \<le> p" by simp
      have "pm ! p = Some cur" using merge_invD(3)[OF inv le that] Some by simp
      then show ?thesis using uncovered_run[OF inv le] le that rsel
        by (simp add: getLayerAt_snoc)
    qed
    show ?thesis unfolding eq using srt suc reg lay by blast
  qed
  show "sorted_wrt (\<lambda>a b. endp a \<le> start b) (mergeRuns pm n)"
    and "successively (\<lambda>a b. endp a = start b \<longrightarrow> layer a \<noteq> layer b) (mergeRuns pm n)"
    and "\<And>r. r \<in> set (mergeRuns pm n) \<Longrightarrow> 0 \<le> start r \<and> start r < endp r \<and> endp r \<le> int n"
    and "\<And>p. p < n \<Longrightarrow> getLayerAt (mergeRuns pm n) (int p) = pm ! p"
    using all by blast+
qed

lemma resolveOverlaps_sorted:
  "sorted_wrt (\<lambda>a b. endp a \<le> start b) (resolveOverlaps rs n)"
  by (simp add: resolveOverlaps_def mergeRuns_props(1))

lemma resolveOverlaps_touching:
  "successively (\<lambda>a b. endp a = start b \<longrightarrow> layer a \<noteq> layer b) (resolveOverlaps rs n)"
  by (simp add: resolveOverlaps_def mergeRuns_props(2))

lemma resolveOverlaps_bounds:
  "r \<in> set (resolveOverlaps rs n) \<Longrightarrow> 0 \<le> start r \<and> start r < endp r \<and> endp r \<le> int n"
  using mergeRuns_props(3)[of r "fst (paintAll rs n)" n]
  by (auto simp: resolveOverlaps_def split: if_splits)

lemma resolveOverlaps_layer:
  assumes "p < n"
  shows "getLayerAt (resolveOverlaps rs n) (int p) = fst (paintAll rs n) ! p"
proof (cases "rs = []")
  case True
  then show ?thesis using assms by (simp add: resolveOverlaps_def paintAll_def getLayerAt_def)
next
  case False
  then show ?thesis using assms mergeRuns_props(4)[OF assms, of "fst (paintAll rs n)"]
    by (simp add: resolveOverlaps_def)
qed

lemma successively_nth:
  "successively P xs \<Longrightarrow> Suc i < length xs \<Longrightarrow> P (xs ! i) (xs ! Suc i)"
proof (induction P xs arbitrary: i rule: successively.induct)
  case (3 P x y xs)
  then show ?case by (cases i) auto
qed simp_all

lemma paintAll_dominance:
  assumes pos: "\<forall>r\<in>set candidates. 0 < priority r" and p: "p < textLength"
  shows "(\<not> (\<exists>r\<in>set candidates. covers r p) \<longrightarrow>
            cell (paintAll candidates textLength) p = (None, 0)) \<and>
         ((\<exists>r\<in>set candidates. covers r p) \<longrightarrow>
            (\<exists>k<length candidates. covers (candidates ! k) p \<and>
               cell (paintAll candidates textLength) p =
                 (Some (layer (candidates ! k)), priority (candidates ! k)) \<and>
               (\<forall>j<length candidates. covers (candidates ! j) p \<longrightarrow>
                  priority (candidates ! j) \<le> priority (candidates ! k)) \<and>
               (\<forall>j<k. covers (candidates ! j) p \<longrightarrow>
                  priority (candidates ! j) < priority (candidates ! k))))"
proof -
  obtain l q where f: "fold (cellStep p) candidates (None, 0) = (l, q)"
    by (cases "fold (cellStep p) candidates (None, 0)") auto
  have c: "cell (paintAll candidates textLength) p = (l, q)"
    using paintAll_cell[OF p, of candidates] f by simp
  note ch = fold_cellStep_char[OF f]
  have none: "cell (paintAll candidates textLength) p = (None, 0)"
    if "\<not> (\<exists>r\<in>set candidates. covers r p)"
  proof (cases l)
    case None
    then show ?thesis using ch c by simp
  next
    case (Some L)
    then obtain k where "k < length candidates" "covers (candidates ! k) p"
      using ch by blast
    then show ?thesis using that nth_mem by blast
  qed
  have some: "\<exists>k<length candidates. covers (candidates ! k) p \<and>
               cell (paintAll candidates textLength) p =
                 (Some (layer (candidates ! k)), priority (candidates ! k)) \<and>
               (\<forall>j<length candidates. covers (candidates ! j) p \<longrightarrow>
                  priority (candidates ! j) \<le> priority (candidates ! k)) \<and>
               (\<forall>j<k. covers (candidates ! j) p \<longrightarrow>
                  priority (candidates ! j) < priority (candidates ! k))"
    if "\<exists>r\<in>set candidates. covers r p"
  proof -
    from that obtain i where i: "i < length candidates" "covers (candidates ! i) p"
      by (auto simp: in_set_conv_nth)
    then have "0 < priority (candidates ! i)" using pos by simp
    moreover have "priority (candidates ! i) \<le> q" using ch i by blast
    ultimately have "q \<noteq> 0" by simp
    then obtain L where L: "l = Some L" using ch by (cases l) auto
    then obtain k where k: "k < length candidates" "covers (candidates ! k) p"
      "layer (candidates ! k) = L" "priority (candidates ! k) = q"
      "\<forall>j<k. covers (candidates ! j) p \<longrightarrow> priority (candidates ! j) < q"
      using ch by blast
    have "\<forall>j<length candidates. covers (candidates ! j) p \<longrightarrow>
            priority (candidates ! j) \<le> priority (candidates ! k)"
      using ch k(4) by simp
    then show ?thesis using k c L by (intro exI[of _ k]) simp
  qed
  show ?thesis using none some by blast
qed




lemma sorted_wrt_nth_Suc:
  "sorted_wrt P xs \<Longrightarrow> Suc i < length xs \<Longrightarrow> P (xs ! i) (xs ! Suc i)"
  by (simp add: sorted_wrt_iff_nth_less)

lemma resolveOverlaps_Nil: "resolveOverlaps [] n = []"
  by (simp add: resolveOverlaps_def)

lemma resolveOverlaps_0: "resolveOverlaps raw 0 = []"
  by (simp add: resolveOverlaps_def)

lemma covers_mono:
  "start r \<le> start c \<Longrightarrow> endp c \<le> endp r \<Longrightarrow> start c \<le> int p \<Longrightarrow> int p < endp c \<Longrightarrow> covers r p"
  by (simp add: covers_def)

section \<open>The bracket matcher: lemmas\<close>

lemma depthAfter_start: "q \<le> opn \<Longrightarrow> depthAfter s opn q = 1"
  by (simp add: depthAfter_def)

lemma depthAfter_step:
  "opn \<le> q \<Longrightarrow> depthAfter s opn (q + 1) = depthAfter s opn q + bracketDelta (charAt s (q + 1))"
proof -
  assume "opn \<le> q"
  then have "{opn + 1..q + 1} = insert (q + 1) {opn + 1..q}" by auto
  then show ?thesis by (simp add: depthAfter_def)
qed

lemma findOpeningBracket_found:
  "findOpeningBracket s b = r \<Longrightarrow> r \<noteq> - 1 \<Longrightarrow>
     0 \<le> r \<and> r \<le> b \<and> charAt s r = Some CHR ''<'' \<and>
     (\<forall>q. r < q \<and> q \<le> b \<longrightarrow> charAt s q \<noteq> Some CHR ''<'')"
proof (induction s b rule: findOpeningBracket.induct)
  case (1 sourceText pos)
  show ?case
  proof (cases "pos > 0 \<and> charAt sourceText pos \<noteq> Some CHR ''<''")
    case True
    then have "findOpeningBracket sourceText pos = findOpeningBracket sourceText (pos - 1)"
      by (subst findOpeningBracket.simps) simp
    then have "findOpeningBracket sourceText (pos - 1) = r" using 1(2) by simp
    from 1(1)[OF True this 1(3)]
    have IH: "0 \<le> r" "r \<le> pos - 1" "charAt sourceText r = Some CHR ''<''"
      "\<forall>q. r < q \<and> q \<le> pos - 1 \<longrightarrow> charAt sourceText q \<noteq> Some CHR ''<''"
      by auto
    have "charAt sourceText q \<noteq> Some CHR ''<''" if "r < q" "q \<le> pos" for q
      using that IH(4) True by (cases "q = pos") auto
    then show ?thesis using IH by auto
  next
    case False
    then have eq: "findOpeningBracket sourceText pos =
        (if charAt sourceText pos = Some CHR ''<'' then pos else - 1)"
      by (subst findOpeningBracket.simps) auto
    then have "charAt sourceText pos = Some CHR ''<''" "r = pos"
      using 1(2,3) by (auto split: if_splits)
    then show ?thesis by (auto simp: charAt_def split: if_splits)
  qed
qed

lemma findOpeningBracket_none:
  "findOpeningBracket s b = - 1 \<Longrightarrow> 0 \<le> q \<Longrightarrow> q \<le> b \<Longrightarrow> charAt s q \<noteq> Some CHR ''<''"
proof (induction s b rule: findOpeningBracket.induct)
  case (1 sourceText pos)
  show ?case
  proof (cases "pos > 0 \<and> charAt sourceText pos \<noteq> Some CHR ''<''")
    case True
    then have "findOpeningBracket sourceText pos = findOpeningBracket sourceText (pos - 1)"
      by (subst findOpeningBracket.simps) simp
    then have r: "findOpeningBracket sourceText (pos - 1) = - 1" using 1(2) by simp
    show ?thesis
    proof (cases "q = pos")
      case True
      then show ?thesis using \<open>pos > 0 \<and> charAt sourceText pos \<noteq> Some CHR ''<''\<close> by simp
    next
      case False
      then have "q \<le> pos - 1" using 1(4) by simp
      from 1(1)[OF True r 1(3) this] show ?thesis .
    qed
  next
    case False
    then have eq: "findOpeningBracket sourceText pos =
        (if charAt sourceText pos = Some CHR ''<'' then pos else - 1)"
      by (subst findOpeningBracket.simps) auto
    have ne: "charAt sourceText pos \<noteq> Some CHR ''<''"
    proof
      assume c: "charAt sourceText pos = Some CHR ''<''"
      then have "findOpeningBracket sourceText pos = pos" using eq by simp
      moreover have "0 \<le> pos" using c by (auto simp: charAt_def split: if_splits)
      ultimately show False using 1(2) by simp
    qed
    then have "pos \<le> 0" using False by auto
    then have "q = pos" using 1(3,4) by simp
    then show ?thesis using ne by simp
  qed
qed

lemma closeBracketLoop_inv:
  "closeBracketLoop s d pos = (d', pos') \<Longrightarrow> opn < pos \<Longrightarrow> d = depthAfter s opn (pos - 1) \<Longrightarrow>
     pos \<le> pos' \<and> d' = depthAfter s opn (pos' - 1) \<and>
     (\<forall>q. pos \<le> q \<and> q < pos' - 1 \<longrightarrow> depthAfter s opn q > 0) \<and>
     \<not> (pos' < int (length s) \<and> d' > 0) \<and>
     (pos < pos' \<longrightarrow> d > 0 \<and> pos' \<le> int (length s))"
proof (induction s d pos arbitrary: d' pos' rule: closeBracketLoop.induct)
  case (1 sourceText depth pos)
  show ?case
  proof (cases "pos < int (length sourceText) \<and> depth > 0")
    case False
    then have "closeBracketLoop sourceText depth pos = (depth, pos)"
      by (subst closeBracketLoop.simps) auto
    then have "d' = depth" "pos' = pos" using 1(2) by auto
    then show ?thesis using False 1(4) by auto
  next
    case True
    define d1 where "d1 = (if charAt sourceText pos = Some CHR ''<'' then depth + 1
           else if charAt sourceText pos = Some CHR ''>'' then depth - 1
           else depth)"
    have step: "closeBracketLoop sourceText depth pos = closeBracketLoop sourceText d1 (pos + 1)"
      using True unfolding d1_def by (subst closeBracketLoop.simps) simp
    have d1: "d1 = depthAfter sourceText opn pos"
      using depthAfter_step[of opn "pos - 1" sourceText] 1(3,4)
      by (auto simp: d1_def bracketDelta_def)
    have r: "closeBracketLoop sourceText d1 (pos + 1) = (d', pos')"
      using step 1(2) by simp
    have o: "opn < pos + 1" using 1(3) by simp
    have e: "(if charAt sourceText pos = Some CHR ''<'' then depth + 1
           else if charAt sourceText pos = Some CHR ''>'' then depth - 1
           else depth) = depthAfter sourceText opn (pos + 1 - 1)"
      using d1 unfolding d1_def by simp
    note IH0 = 1(1)[OF True r[unfolded d1_def] o e]
    have IH: "pos + 1 \<le> pos'" "d' = depthAfter sourceText opn (pos' - 1)"
     "\<forall>q. pos + 1 \<le> q \<and> q < pos' - 1 \<longrightarrow> depthAfter sourceText opn q > 0"
     "\<not> (pos' < int (length sourceText) \<and> d' > 0)"
     "pos + 1 < pos' \<longrightarrow> d1 > 0 \<and> pos' \<le> int (length sourceText)"
      using IH0 unfolding d1_def by blast+
    have a: "depthAfter sourceText opn q > 0" if "pos \<le> q" "q < pos' - 1" for q
    proof (cases "q = pos")
      case True
      then have "pos + 1 < pos'" using that by simp
      then show ?thesis using IH d1 True by simp
    next
      case False
      then show ?thesis using that IH by simp
    qed
    have b: "pos' \<le> int (length sourceText)"
      using IH True by (cases "pos + 1 < pos'") auto
    show ?thesis using IH a b True by auto
  qed
qed

lemma closeBracketLoop_from_open:
  assumes "closeBracketLoop s 1 (opn + 1) = (d', pos')"
  shows "opn + 1 \<le> pos'" and "d' = depthAfter s opn (pos' - 1)"
    and "\<And>q. opn < q \<Longrightarrow> q < pos' - 1 \<Longrightarrow> depthAfter s opn q > 0"
    and "pos' < int (length s) \<Longrightarrow> d' \<le> 0"
    and "opn + 1 < pos' \<Longrightarrow> pos' \<le> int (length s)"
proof -
  have o: "opn < opn + 1" by simp
  have e: "1 = depthAfter s opn (opn + 1 - 1)" by (simp add: depthAfter_start)
  note inv = closeBracketLoop_inv[OF assms o e]
  show "opn + 1 \<le> pos'" "d' = depthAfter s opn (pos' - 1)" using inv by blast+
  show "depthAfter s opn q > 0" if "opn < q" "q < pos' - 1" for q
    using inv that by auto
  show "d' \<le> 0" if "pos' < int (length s)" using inv that by auto
  show "pos' \<le> int (length s)" if "opn + 1 < pos'" using inv that by auto
qed

lemma depth_before_positive:
  assumes "closeBracketLoop s 1 (opn + 1) = (d', pos')" and "opn < pos' - 1"
  shows "depthAfter s opn (pos' - 1 - 1) > 0"
proof (cases "opn < pos' - 1 - 1")
  case True
  then show ?thesis using closeBracketLoop_from_open(3)[OF assms(1), of "pos' - 1 - 1"] by simp
next
  case False
  then show ?thesis by (simp add: depthAfter_start)
qed

lemma findMatchingCloseBracket_found:
  assumes "findMatchingCloseBracket s opn = r" and "r \<noteq> - 1"
  shows "opn < r \<and> r < int (length s) \<and> charAt s r = Some CHR ''>'' \<and> depthAfter s opn r = 0 \<and>
         (\<forall>q. opn < q \<and> q < r \<longrightarrow> depthAfter s opn q > 0)"
proof -
  obtain d' pos' where l: "closeBracketLoop s 1 (opn + 1) = (d', pos')"
    by (cases "closeBracketLoop s 1 (opn + 1)") auto
  have d0: "d' = 0" and r: "r = pos' - 1"
    using assms l by (auto simp: findMatchingCloseBracket_def split: if_splits)
  note f = closeBracketLoop_from_open[OF l]
  have dr: "depthAfter s opn r = 0" using f(2) d0 r by simp
  have "pos' \<noteq> opn + 1"
  proof
    assume "pos' = opn + 1"
    then have "depthAfter s opn (pos' - 1) = 1" by (simp add: depthAfter_start)
    then show False using f(2) d0 by simp
  qed
  then have gt: "opn + 1 < pos'" using f(1) by simp
  then have lt: "opn < r" "r < int (length s)" using f(5) r by auto
  have prev: "depthAfter s opn (r - 1) > 0"
    using depth_before_positive[OF l] lt r by simp
  have "depthAfter s opn r = depthAfter s opn (r - 1) + bracketDelta (charAt s r)"
    using depthAfter_step[of opn "r - 1" s] lt by simp
  then have "bracketDelta (charAt s r) < 0" using dr prev by simp
  then have c: "charAt s r = Some CHR ''>''"
    by (auto simp: bracketDelta_def split: if_splits)
  have "\<forall>q. opn < q \<and> q < r \<longrightarrow> depthAfter s opn q > 0"
    using f(3) r by simp
  then show ?thesis using lt c dr by simp
qed

lemma findMatchingCloseBracket_none:
  assumes "findMatchingCloseBracket s opn = - 1" and "opn < q" and "q < int (length s)"
  shows "depthAfter s opn q > 0"
proof -
  obtain d' pos' where l: "closeBracketLoop s 1 (opn + 1) = (d', pos')"
    by (cases "closeBracketLoop s 1 (opn + 1)") auto
  note f = closeBracketLoop_from_open[OF l]
  have dn: "d' \<noteq> 0"
  proof
    assume d0: "d' = 0"
    then have "pos' - 1 = - 1" using assms(1) l by (simp add: findMatchingCloseBracket_def)
    then have "pos' = 0" by simp
    have "pos' \<noteq> opn + 1"
    proof
      assume "pos' = opn + 1"
      then have "depthAfter s opn (pos' - 1) = 1" by (simp add: depthAfter_start)
      then show False using f(2) d0 by simp
    qed
    then have "opn + 1 < pos'" using f(1) by simp
    then have "opn < pos' - 1" by simp
    have prev: "depthAfter s opn (pos' - 1 - 1) > 0"
      using depth_before_positive[OF l \<open>opn < pos' - 1\<close>] .
    have "depthAfter s opn (pos' - 1) = depthAfter s opn (pos' - 1 - 1) + bracketDelta (charAt s (pos' - 1))"
      using depthAfter_step[of opn "pos' - 1 - 1" s] \<open>opn < pos' - 1\<close> by simp
    then have "bracketDelta (charAt s (pos' - 1)) < 0" using f(2) d0 prev by simp
    then have "charAt s (pos' - 1) = Some CHR ''>''"
      by (auto simp: bracketDelta_def split: if_splits)
    then have "0 \<le> pos' - 1" by (auto simp: charAt_def split: if_splits)
    then show False using \<open>pos' = 0\<close> by simp
  qed
  have last_pos: "d' > 0"
  proof (cases "opn < pos' - 1")
    case True
    have prev: "depthAfter s opn (pos' - 1 - 1) > 0"
      using depth_before_positive[OF l True] .
    have "depthAfter s opn (pos' - 1) = depthAfter s opn (pos' - 1 - 1) + bracketDelta (charAt s (pos' - 1))"
      using depthAfter_step[of opn "pos' - 1 - 1" s] True by simp
    moreover have "bracketDelta (charAt s (pos' - 1)) \<ge> - 1" by (simp add: bracketDelta_def)
    ultimately have "d' \<ge> 0" using f(2) prev by simp
    then show ?thesis using dn by simp
  next
    case False
    then have "depthAfter s opn (pos' - 1) = 1" by (simp add: depthAfter_start)
    then show ?thesis using f(2) by simp
  qed
  then have ge: "int (length s) \<le> pos'" using f(4) by (cases "pos' < int (length s)") auto
  show ?thesis
  proof (cases "q < pos' - 1")
    case True
    then show ?thesis using f(3) assms(2) by simp
  next
    case False
    then have "q = pos' - 1" using assms(3) ge
      using f(5) f(1) assms(2) by (cases "opn + 1 < pos'") auto
    then show ?thesis using f(2) last_pos by simp
  qed
qed

section \<open>The region collector: lemmas\<close>

subsection \<open>What a visit adds\<close>

lemma extends_refl [simp, intro!]: "extends ctx ctx"
  by (simp add: extends_def)

lemma extends_trans: "extends a b \<Longrightarrow> extends b c \<Longrightarrow> extends a c"
  by (auto simp: extends_def)

lemma extends_addRegion [intro!]: "extends ctx c \<Longrightarrow> extends ctx (addRegion s e l c)"
  by (auto simp: extends_def addRegion_def well_formed_def)

lemma extends_markTypeArguments [intro!]:
  "extends ctx c \<Longrightarrow> extends ctx (markTypeArguments sourceText tas c)"
  by (auto simp: markTypeArguments_def Let_def split: list.splits)

lemma extends_markTypeParameters [intro!]:
  "extends ctx c \<Longrightarrow> extends ctx (markTypeParameters sourceText n c)"
  by (auto simp: markTypeParameters_def split: option.splits)

lemma extends_markColonType [intro!]:
  "extends ctx c \<Longrightarrow> extends ctx (markColonType n c)"
  by (auto simp: markColonType_def split: option.splits)

lemma extends_markOptionalColonType [intro!]:
  "extends ctx c \<Longrightarrow> extends ctx (markOptionalColonType n c)"
  by (auto simp: markOptionalColonType_def split: option.splits)

lemma extends_fold:
  assumes "\<And>x a b. extends a b \<Longrightarrow> extends a (f x b)"
  shows "extends ctx c \<Longrightarrow> extends ctx (fold f xs c)"
  by (induction xs arbitrary: c) (auto intro: assms)

lemma extends_markModifiers [intro!]:
  "extends ctx c \<Longrightarrow> extends ctx (markModifiers kinds n c)"
  unfolding markModifiers_def by (rule extends_fold) auto

lemma extends_foldOpt:
  assumes "\<And>x a b b'. extends a b \<Longrightarrow> f x b = Some b' \<Longrightarrow> extends a b'"
  shows "extends ctx c \<Longrightarrow> foldOpt f xs c = Some c' \<Longrightarrow> extends ctx c'"
proof (induction xs arbitrary: c)
  case Nil
  then show ?case by simp
next
  case (Cons x xs)
  then show ?case by (auto split: option.splits intro: assms)
qed

lemma extends_markReactTypeName:
  "extends ctx c \<Longrightarrow> markReactTypeName x c = Some c' \<Longrightarrow> extends ctx c'"
  by (auto simp: markReactTypeName_def split: bind_splits if_splits)

lemma extends_markTypeOnlySpecifier:
  "extends ctx c \<Longrightarrow> markTypeOnlySpecifier x c = Some c' \<Longrightarrow> extends ctx c'"
  by (auto simp: markTypeOnlySpecifier_def Let_def split: bind_splits if_splits)

lemma extends_markKeyProperty:
  "extends ctx c \<Longrightarrow> markKeyProperty x c = Some c' \<Longrightarrow> extends ctx c'"
  by (auto simp: markKeyProperty_def split: bind_splits if_splits)

lemma extends_markFirstArgument:
  "extends ctx c \<Longrightarrow> markFirstArgument sourceText x c = Some c' \<Longrightarrow> extends ctx c'"
  by (auto simp: markFirstArgument_def split: bind_splits if_splits)

lemma extends_markTagName [intro!]:
  "extends ctx c \<Longrightarrow> extends ctx (markTagName n t b c)"
  by (auto simp: markTagName_def)

lemma extends_standardClassification:
  "standardClassification sourceText n ctx = Some (ctx', kids) \<Longrightarrow> extends ctx ctx'"
  by (auto simp: standardClassification_def split: bind_splits option.splits)

lemma extends_foldOpt_markReactTypeName:
  "extends ctx c \<Longrightarrow> foldOpt markReactTypeName xs c = Some c' \<Longrightarrow> extends ctx c'"
  by (erule extends_foldOpt[rotated]) (auto intro: extends_markReactTypeName)

lemma extends_foldOpt_markTypeOnlySpecifier:
  "extends ctx c \<Longrightarrow> foldOpt markTypeOnlySpecifier xs c = Some c' \<Longrightarrow> extends ctx c'"
  by (erule extends_foldOpt[rotated]) (auto intro: extends_markTypeOnlySpecifier)

lemma extends_foldOpt_markKeyProperty:
  "extends ctx c \<Longrightarrow> foldOpt markKeyProperty xs c = Some c' \<Longrightarrow> extends ctx c'"
  by (erule extends_foldOpt[rotated]) (auto intro: extends_markKeyProperty)

lemma extends_heritage:
  "extends ctx c \<Longrightarrow>
   extends ctx (fold (\<lambda>clause c.
                          fold (\<lambda>ty c'. markTypeArguments sourceText (getAll ''typeArguments'' ty) c')
                               (getAll ''types'' clause) c) clauses c)"
  by (rule extends_fold, rule extends_fold) auto

lemma extends_visitJsxElement:
  "visitJsxElement sourceText n ctx = Some (ctx', kids) \<Longrightarrow> extends ctx ctx'"
  by (auto simp: visitJsxElement_def Let_def split: bind_splits if_splits
      dest: extends_standardClassification)

lemma extends_visitJsxSelfClosingElement:
  "visitJsxSelfClosingElement sourceText n ctx = Some (ctx', kids) \<Longrightarrow> extends ctx ctx'"
  by (auto simp: visitJsxSelfClosingElement_def Let_def split: bind_splits if_splits)

lemma extends_visitJsxOpeningElement:
  "visitJsxOpeningElement sourceText n ctx = Some (ctx', kids) \<Longrightarrow> extends ctx ctx'"
  by (auto simp: visitJsxOpeningElement_def Let_def split: bind_splits if_splits)

lemma extends_visitJsxClosingElement:
  "visitJsxClosingElement n ctx = Some (ctx', kids) \<Longrightarrow> extends ctx ctx'"
  by (auto simp: visitJsxClosingElement_def Let_def split: bind_splits if_splits)

lemma extends_visitJsxExpression:
  "visitJsxExpression sourceText n ctx = Some (ctx', kids) \<Longrightarrow> extends ctx ctx'"
  by (auto simp: visitJsxExpression_def Let_def split: bind_splits if_splits)

lemma extends_visitJsxSpreadAttribute:
  "visitJsxSpreadAttribute sourceText n ctx = Some (ctx', kids) \<Longrightarrow> extends ctx ctx'"
  by (auto simp: visitJsxSpreadAttribute_def Let_def split: bind_splits if_splits)

lemma extends_visitJsxAttribute:
  "visitJsxAttribute n ctx = Some (ctx', kids) \<Longrightarrow> extends ctx ctx'"
  by (auto simp: visitJsxAttribute_def Let_def split: bind_splits if_splits option.splits)

lemma extends_visitDecorator:
  "visitDecorator n ctx = Some (ctx', kids) \<Longrightarrow> extends ctx ctx'"
  by (auto simp: visitDecorator_def)

lemma extends_visitExpressionStatement:
  "visitExpressionStatement sourceText n ctx = Some (ctx', kids) \<Longrightarrow> extends ctx ctx'"
  by (auto simp: visitExpressionStatement_def Let_def split: bind_splits if_splits
      dest: extends_standardClassification)

lemma extends_visitVariableStatement:
  "visitVariableStatement n ctx = Some (ctx', kids) \<Longrightarrow> extends ctx ctx'"
  by (auto simp: visitVariableStatement_def Let_def split: bind_splits if_splits list.splits)

lemma extends_visitInterfaceDeclaration:
  "visitInterfaceDeclaration n ctx = Some (ctx', kids) \<Longrightarrow> extends ctx ctx'"
  by (auto simp: visitInterfaceDeclaration_def)

lemma extends_visitTypeAliasDeclaration:
  "visitTypeAliasDeclaration n ctx = Some (ctx', kids) \<Longrightarrow> extends ctx ctx'"
  by (auto simp: visitTypeAliasDeclaration_def)

lemma extends_visitModuleDeclaration:
  "visitModuleDeclaration n ctx = Some (ctx', kids) \<Longrightarrow> extends ctx ctx'"
  by (auto simp: visitModuleDeclaration_def)

lemma extends_visitExpressionWithTypeArguments:
  "visitExpressionWithTypeArguments sourceText n ctx = Some (ctx', kids) \<Longrightarrow> extends ctx ctx'"
  by (auto simp: visitExpressionWithTypeArguments_def Let_def split: bind_splits if_splits)

lemma extends_visitClassDeclaration:
  "visitClassDeclaration sourceText n ctx = Some (ctx', kids) \<Longrightarrow> extends ctx ctx'"
  by (auto simp: visitClassDeclaration_def Let_def split: if_splits intro!: extends_heritage)

lemma extends_visitAsExpression:
  "visitAsExpression n ctx = Some (ctx', kids) \<Longrightarrow> extends ctx ctx'"
  by (auto simp: visitAsExpression_def Let_def split: bind_splits)

lemma extends_visitTypeAssertionExpression:
  "visitTypeAssertionExpression n ctx = Some (ctx', kids) \<Longrightarrow> extends ctx ctx'"
  by (auto simp: visitTypeAssertionExpression_def Let_def split: bind_splits)

lemma extends_visitSatisfiesExpression:
  "visitSatisfiesExpression n ctx = Some (ctx', kids) \<Longrightarrow> extends ctx ctx'"
  by (auto simp: visitSatisfiesExpression_def Let_def split: bind_splits)

lemma extends_visitNonNullExpression:
  "visitNonNullExpression n ctx = Some (ctx', kids) \<Longrightarrow> extends ctx ctx'"
  by (auto simp: visitNonNullExpression_def Let_def split: bind_splits)

lemma extends_visitVariableDeclaration:
  "visitVariableDeclaration n ctx = Some (ctx', kids) \<Longrightarrow> extends ctx ctx'"
  by (auto simp: visitVariableDeclaration_def Let_def)

lemma extends_visitParameter:
  "visitParameter n ctx = Some (ctx', kids) \<Longrightarrow> extends ctx ctx'"
  by (auto simp: visitParameter_def Let_def)

lemma extends_visitPropertySignature:
  "visitPropertySignature n ctx = Some (ctx', kids) \<Longrightarrow> extends ctx ctx'"
  by (auto simp: visitPropertySignature_def Let_def)

lemma extends_visitPropertyDeclaration:
  "visitPropertyDeclaration n ctx = Some (ctx', kids) \<Longrightarrow> extends ctx ctx'"
  by (auto simp: visitPropertyDeclaration_def Let_def)

lemma extends_visitFunctionDeclaration:
  "visitFunctionDeclaration sourceText n ctx = Some (ctx', kids) \<Longrightarrow> extends ctx ctx'"
  by (auto simp: visitFunctionDeclaration_def Let_def split: if_splits)

lemma extends_visitMethodDeclaration:
  "visitMethodDeclaration sourceText n ctx = Some (ctx', kids) \<Longrightarrow> extends ctx ctx'"
  by (auto simp: visitMethodDeclaration_def Let_def)

lemma extends_visitArrowFunction:
  "visitArrowFunction sourceText n ctx = Some (ctx', kids) \<Longrightarrow> extends ctx ctx'"
  by (auto simp: visitArrowFunction_def Let_def)

lemma extends_visitFunctionExpression:
  "visitFunctionExpression sourceText n ctx = Some (ctx', kids) \<Longrightarrow> extends ctx ctx'"
  by (auto simp: visitFunctionExpression_def Let_def)

lemma extends_visitGetAccessor:
  "visitGetAccessor n ctx = Some (ctx', kids) \<Longrightarrow> extends ctx ctx'"
  by (auto simp: visitGetAccessor_def Let_def)

lemma extends_visitImportDeclaration:
  "visitImportDeclaration n ctx = Some (ctx', kids) \<Longrightarrow> extends ctx ctx'"
  by (auto simp: visitImportDeclaration_def Let_def split: bind_splits if_splits
      intro: extends_foldOpt_markReactTypeName[rotated] extends_foldOpt_markTypeOnlySpecifier[rotated])

lemma extends_visitExportDeclaration:
  "visitExportDeclaration n ctx = Some (ctx', kids) \<Longrightarrow> extends ctx ctx'"
  by (auto simp: visitExportDeclaration_def Let_def split: bind_splits if_splits
      intro: extends_foldOpt_markReactTypeName[rotated] extends_foldOpt_markTypeOnlySpecifier[rotated])

lemma extends_visitPropertyAccessExpression:
  "visitPropertyAccessExpression sourceText n ctx = Some (ctx', kids) \<Longrightarrow> extends ctx ctx'"
  by (auto simp: visitPropertyAccessExpression_def Let_def split: bind_splits if_splits
      dest: extends_standardClassification)

lemma extends_visitNewExpression:
  "visitNewExpression sourceText n ctx = Some (ctx', kids) \<Longrightarrow> extends ctx ctx'"
  by (auto simp: visitNewExpression_def Let_def)

lemma extends_visitCallExpression:
  "visitCallExpression sourceText n ctx = Some (ctx', kids) \<Longrightarrow> extends ctx ctx'"
  unfolding visitCallExpression_def
  by (auto simp: Let_def split: bind_splits if_splits list.splits
      intro: extends_foldOpt_markKeyProperty[rotated] extends_markFirstArgument[rotated])

lemma extends_grows: "extends a b \<Longrightarrow> grows a b"
  by (auto simp: extends_def grows_def)

lemma grows_refl [simp]: "grows a a"
  by (simp add: grows_def)

lemma grows_trans: "grows a b \<Longrightarrow> grows b c \<Longrightarrow> grows a c"
  by (auto simp: grows_def)

lemma visitEnumDeclaration_effect:
  "visitEnumDeclaration n ctx = Some (ctx', kids) \<Longrightarrow> kind n = ''EnumDeclaration'' \<Longrightarrow>
     grows ctx ctx' \<and> enumNames ctx' = enumNames ctx \<union> declaredEnum n \<and> kids = []"
  by (auto simp: visitEnumDeclaration_def declaredEnum_def Let_def addRegion_def grows_def
      well_formed_def split: option.splits if_splits)

lemmas extends_branches =
  extends_visitJsxElement extends_visitJsxSelfClosingElement extends_visitJsxOpeningElement
  extends_visitJsxClosingElement extends_visitJsxExpression extends_visitJsxSpreadAttribute
  extends_visitJsxAttribute extends_visitDecorator extends_visitExpressionStatement
  extends_visitVariableStatement extends_visitInterfaceDeclaration
  extends_visitTypeAliasDeclaration extends_visitModuleDeclaration
  extends_visitExpressionWithTypeArguments extends_visitClassDeclaration
  extends_visitAsExpression extends_visitTypeAssertionExpression
  extends_visitSatisfiesExpression extends_visitNonNullExpression
  extends_visitVariableDeclaration extends_visitParameter extends_visitPropertySignature
  extends_visitPropertyDeclaration extends_visitFunctionDeclaration
  extends_visitMethodDeclaration extends_visitArrowFunction extends_visitFunctionExpression
  extends_visitImportDeclaration extends_visitExportDeclaration extends_visitGetAccessor
  extends_visitPropertyAccessExpression extends_visitCallExpression
  extends_visitNewExpression extends_standardClassification

lemma visitNode_other:
  assumes "visitNode sourceText n ctx = Some (ctx', kids)" and "kind n \<noteq> ''EnumDeclaration''"
  shows "extends ctx ctx'"
  using assms unfolding visitNode_def
  by (auto split: if_splits dest: extends_branches)

lemma visitNode_enum:
  assumes "kind n = ''EnumDeclaration''"
  shows "visitNode sourceText n ctx = visitEnumDeclaration n ctx"
  using assms by (simp add: visitNode_def)

lemma visitNode_effect:
  assumes "visitNode sourceText n ctx = Some (ctx', kids)"
  shows "grows ctx ctx' \<and> enumNames ctx' = enumNames ctx \<union> declaredEnum n"
proof (cases "kind n = ''EnumDeclaration''")
  case True
  then show ?thesis using assms visitEnumDeclaration_effect[of n ctx ctx' kids]
    by (simp add: visitNode_enum)
next
  case False
  then have "extends ctx ctx'" using assms visitNode_other by blast
  then show ?thesis using False by (auto simp: extends_def grows_def declaredEnum_def)
qed



subsection \<open>No \<^verbatim>\<open>TypeError\<close> on a typed tree\<close>

lemma wellTyped_typed: "wellTyped n \<Longrightarrow> typedNode n"
  by (subst (asm) wellTyped.simps) simp

lemma wellTyped_child: "wellTyped n \<Longrightarrow> c \<in> set (forEachChild n) \<Longrightarrow> wellTyped c"
  by (subst (asm) wellTyped.simps) simp

lemma wellTyped_get: "wellTyped n \<Longrightarrow> get p n = Some c \<Longrightarrow> wellTyped c"
  using wellTyped_child get_in_children by blast

lemma wellTyped_getAll: "wellTyped n \<Longrightarrow> c \<in> set (getAll p n) \<Longrightarrow> wellTyped c"
  using wellTyped_child getAll_subset by blast

lemma foldOpt_total:
  "(\<And>x c. x \<in> set xs \<Longrightarrow> f x c \<noteq> None) \<Longrightarrow> foldOpt f xs c \<noteq> None"
proof (induction xs arbitrary: c)
  case Nil
  then show ?case by simp
next
  case (Cons x xs)
  have "f x c \<noteq> None" using Cons.prems[of x c] by simp
  then obtain c1 where c1: "f x c = Some c1" by (cases "f x c") auto
  have "foldOpt f xs c1 \<noteq> None"
  proof (rule Cons.IH)
    fix y d assume "y \<in> set xs"
    then show "f y d \<noteq> None" using Cons.prems[of y d] by simp
  qed
  then show ?case using c1 by simp
qed

lemma typed_expression:
  assumes "wellTyped n"
    and "kind n = ''ExpressionStatement'' \<or> kind n = ''ExpressionWithTypeArguments'' \<or>
         kind n = ''AsExpression'' \<or> kind n = ''TypeAssertionExpression'' \<or>
         kind n = ''SatisfiesExpression'' \<or> kind n = ''NonNullExpression'' \<or>
         kind n = ''PropertyAccessExpression'' \<or> kind n = ''CallExpression''"
  shows "\<exists>e. get ''expression'' n = Some e \<and> wellTyped e"
proof -
  have "typedNode n" using assms(1) by (rule wellTyped_typed)
  then have "get ''expression'' n \<noteq> None"
    using assms(2) unfolding typedNode_def by (elim disjE) simp_all
  then obtain e where e: "get ''expression'' n = Some e" by (cases "get ''expression'' n") auto
  then show ?thesis using wellTyped_get[OF assms(1) e] by simp
qed

lemma typed_tagName:
  assumes "wellTyped n"
    and "kind n = ''JsxSelfClosingElement'' \<or> kind n = ''JsxOpeningElement'' \<or>
         kind n = ''JsxClosingElement''"
  shows "\<exists>t. get ''tagName'' n = Some t \<and> wellTyped t"
proof -
  have "typedNode n" using assms(1) by (rule wellTyped_typed)
  then have "get ''tagName'' n \<noteq> None"
    using assms(2) unfolding typedNode_def by (elim disjE) simp_all
  then obtain e where e: "get ''tagName'' n = Some e" by (cases "get ''tagName'' n") auto
  then show ?thesis using wellTyped_get[OF assms(1) e] by simp
qed

lemma typed_name:
  assumes "wellTyped n"
    and "kind n = ''JsxAttribute'' \<or> kind n = ''PropertyAssignment'' \<or>
         kind n = ''ImportSpecifier'' \<or> kind n = ''ExportSpecifier''"
  shows "\<exists>t. get ''name'' n = Some t"
proof -
  have "typedNode n" using assms(1) by (rule wellTyped_typed)
  then have "get ''name'' n \<noteq> None"
    using assms(2) unfolding typedNode_def by (elim disjE) simp_all
  then show ?thesis by (cases "get ''name'' n") auto
qed

lemma tagNameIsReact_total: "wellTyped t \<Longrightarrow> tagNameIsReact t \<noteq> None"
proof (cases "kind t = ''PropertyAccessExpression''")
  case True
  assume "wellTyped t"
  then obtain e where "get ''expression'' t = Some e" using typed_expression[of t] True by blast
  then show ?thesis using True by (simp add: tagNameIsReact_def)
next
  case False
  then show ?thesis by (simp add: tagNameIsReact_def)
qed

lemma classifyNode_total: "wellTyped n \<Longrightarrow> classifyNode sourceText n \<noteq> None"
proof (cases "kind n = ''TypeReference''")
  case True
  assume "wellTyped n"
  then have "typedNode n" by (rule wellTyped_typed)
  then have "get ''typeName'' n \<noteq> None" using True by (simp add: typedNode_def)
  then show ?thesis by (auto simp: classifyNode_def Let_def)
next
  case False
  then show ?thesis by (simp add: classifyNode_def)
qed

lemma standardClassification_total:
  "wellTyped n \<Longrightarrow> standardClassification sourceText n ctx \<noteq> None"
  using classifyNode_total[of n sourceText] by (auto simp: standardClassification_def)

lemma visitJsxElement_total:
  assumes "wellTyped n" and "kind n = ''JsxElement''"
  shows "visitJsxElement sourceText n ctx \<noteq> None"
proof -
  have "typedNode n" using assms(1) by (rule wellTyped_typed)
  then obtain el t a where o: "get ''openingElement'' n = Some el"
    "get ''tagName'' el = Some t" "get ''attributes'' el = Some a"
    using assms(2) by (auto simp: typedNode_def split: option.splits)
  then have "misparsedGenericArrow sourceText n \<noteq> None"
    by (cases "kind t = ''Identifier''") (simp_all add: misparsedGenericArrow_def)
  then obtain b where m: "misparsedGenericArrow sourceText n = Some b"
    by (cases "misparsedGenericArrow sourceText n") auto
  show ?thesis
    using m o standardClassification_total[OF assms(1), of sourceText ctx]
    by (cases b) (auto simp: visitJsxElement_def Let_def)
qed

lemma visitJsxSelfClosingElement_total:
  assumes "wellTyped n" and "kind n = ''JsxSelfClosingElement''"
  shows "visitJsxSelfClosingElement sourceText n ctx \<noteq> None"
proof -
  obtain t where t: "get ''tagName'' n = Some t" "wellTyped t"
    using typed_tagName[OF assms(1)] assms(2) by blast
  then obtain b where "tagNameIsReact t = Some b"
    using tagNameIsReact_total[of t] by (cases "tagNameIsReact t") auto
  then show ?thesis using t by (simp add: visitJsxSelfClosingElement_def Let_def)
qed

lemma visitJsxOpeningElement_total:
  assumes "wellTyped n" and "kind n = ''JsxOpeningElement''"
  shows "visitJsxOpeningElement sourceText n ctx \<noteq> None"
proof -
  obtain t where t: "get ''tagName'' n = Some t" "wellTyped t"
    using typed_tagName[OF assms(1)] assms(2) by blast
  then obtain b where "tagNameIsReact t = Some b"
    using tagNameIsReact_total[of t] by (cases "tagNameIsReact t") auto
  then show ?thesis using t by (simp add: visitJsxOpeningElement_def Let_def)
qed

lemma visitJsxClosingElement_total:
  assumes "wellTyped n" and "kind n = ''JsxClosingElement''"
  shows "visitJsxClosingElement n ctx \<noteq> None"
proof -
  obtain t where t: "get ''tagName'' n = Some t" "wellTyped t"
    using typed_tagName[OF assms(1)] assms(2) by blast
  then obtain b where "tagNameIsReact t = Some b"
    using tagNameIsReact_total[of t] by (cases "tagNameIsReact t") auto
  then show ?thesis using t by (simp add: visitJsxClosingElement_def Let_def)
qed

lemma visitJsxAttribute_total:
  assumes "wellTyped n" and "kind n = ''JsxAttribute''"
  shows "visitJsxAttribute n ctx \<noteq> None"
proof -
  obtain t where "get ''name'' n = Some t" using typed_name[OF assms(1)] assms(2) by blast
  then show ?thesis by (simp add: visitJsxAttribute_def Let_def)
qed

lemma visitExpressionStatement_total:
  assumes "wellTyped n" and "kind n = ''ExpressionStatement''"
  shows "visitExpressionStatement sourceText n ctx \<noteq> None"
proof -
  obtain e where "get ''expression'' n = Some e"
    using typed_expression[OF assms(1)] assms(2) by blast
  then show ?thesis using standardClassification_total[OF assms(1), of sourceText ctx]
    by (simp add: visitExpressionStatement_def)
qed

lemma visitVariableStatement_total:
  assumes "wellTyped n" and "kind n = ''VariableStatement''"
  shows "visitVariableStatement n ctx \<noteq> None"
proof -
  have "typedNode n" using assms(1) by (rule wellTyped_typed)
  then obtain d where "get ''declarationList'' n = Some d"
    using assms(2) by (auto simp: typedNode_def)
  then show ?thesis by (simp add: visitVariableStatement_def Let_def)
qed

lemma visitExpressionWithTypeArguments_total:
  assumes "wellTyped n" and "kind n = ''ExpressionWithTypeArguments''"
  shows "visitExpressionWithTypeArguments sourceText n ctx \<noteq> None"
proof -
  obtain e where "get ''expression'' n = Some e"
    using typed_expression[OF assms(1)] assms(2) by blast
  then show ?thesis by (simp add: visitExpressionWithTypeArguments_def Let_def)
qed

lemma visitAsExpression_total:
  assumes "wellTyped n" and "kind n = ''AsExpression''"
  shows "visitAsExpression n ctx \<noteq> None"
proof -
  obtain e where "get ''expression'' n = Some e"
    using typed_expression[OF assms(1)] assms(2) by blast
  then show ?thesis by (simp add: visitAsExpression_def Let_def)
qed

lemma visitTypeAssertionExpression_total:
  assumes "wellTyped n" and "kind n = ''TypeAssertionExpression''"
  shows "visitTypeAssertionExpression n ctx \<noteq> None"
proof -
  obtain e where "get ''expression'' n = Some e"
    using typed_expression[OF assms(1)] assms(2) by blast
  then show ?thesis by (simp add: visitTypeAssertionExpression_def Let_def)
qed

lemma visitSatisfiesExpression_total:
  assumes "wellTyped n" and "kind n = ''SatisfiesExpression''"
  shows "visitSatisfiesExpression n ctx \<noteq> None"
proof -
  obtain e where "get ''expression'' n = Some e"
    using typed_expression[OF assms(1)] assms(2) by blast
  then show ?thesis by (simp add: visitSatisfiesExpression_def Let_def)
qed

lemma visitNonNullExpression_total:
  assumes "wellTyped n" and "kind n = ''NonNullExpression''"
  shows "visitNonNullExpression n ctx \<noteq> None"
proof -
  obtain e where "get ''expression'' n = Some e"
    using typed_expression[OF assms(1)] assms(2) by blast
  then show ?thesis by (simp add: visitNonNullExpression_def Let_def)
qed

lemma visitPropertyAccessExpression_total:
  assumes "wellTyped n" and "kind n = ''PropertyAccessExpression''"
  shows "visitPropertyAccessExpression sourceText n ctx \<noteq> None"
proof -
  obtain e where "get ''expression'' n = Some e"
    using typed_expression[OF assms(1)] assms(2) by blast
  then show ?thesis using standardClassification_total[OF assms(1), of sourceText ctx]
    by (simp add: visitPropertyAccessExpression_def)
qed

lemma specifiers_named:
  assumes "wellTyped nb" and "kind nb = ''NamedImports'' \<or> kind nb = ''NamedExports''"
    and "x \<in> set (getAll ''elements'' nb)"
  shows "\<exists>t. get ''name'' x = Some t"
proof -
  have tn: "typedNode nb" using assms(1) by (rule wellTyped_typed)
  have wx: "wellTyped x" using wellTyped_getAll[OF assms(1) assms(3)] .
  have "kind x = ''ImportSpecifier'' \<or> kind x = ''ExportSpecifier''"
    using assms(2)
  proof
    assume k: "kind nb = ''NamedImports''"
    then have "list_all (\<lambda>e. kind e = ''ImportSpecifier'') (getAll ''elements'' nb)"
      using tn by (simp add: typedNode_def)
    then show ?thesis using assms(3) by (simp add: list_all_iff)
  next
    assume k: "kind nb = ''NamedExports''"
    then have "list_all (\<lambda>e. kind e = ''ExportSpecifier'') (getAll ''elements'' nb)"
      using tn by (simp add: typedNode_def)
    then show ?thesis using assms(3) by (simp add: list_all_iff)
  qed
  then show ?thesis using typed_name[OF wx] by blast
qed

lemma specifier_loops_total:
  assumes "wellTyped nb" and "kind nb = ''NamedImports'' \<or> kind nb = ''NamedExports''"
  shows "foldOpt markReactTypeName (getAll ''elements'' nb) c \<noteq> None"
    and "foldOpt markTypeOnlySpecifier (getAll ''elements'' nb) c \<noteq> None"
proof -
  show "foldOpt markReactTypeName (getAll ''elements'' nb) c \<noteq> None"
  proof (rule foldOpt_total)
    fix x d assume "x \<in> set (getAll ''elements'' nb)"
    then obtain t where "get ''name'' x = Some t" using specifiers_named[OF assms] by blast
    then show "markReactTypeName x d \<noteq> None" by (simp add: markReactTypeName_def)
  qed
  show "foldOpt markTypeOnlySpecifier (getAll ''elements'' nb) c \<noteq> None"
  proof (rule foldOpt_total)
    fix x d assume "x \<in> set (getAll ''elements'' nb)"
    then obtain t where "get ''name'' x = Some t" using specifiers_named[OF assms] by blast
    then show "markTypeOnlySpecifier x d \<noteq> None" by (simp add: markTypeOnlySpecifier_def Let_def)
  qed
qed

lemma foldOpt_Nil_total: "foldOpt f [] c \<noteq> None"
  by simp

lemma visitImportDeclaration_total:
  assumes "wellTyped n"
  shows "visitImportDeclaration n ctx \<noteq> None"
proof -
  define elements where "elements =
     (case (case get ''importClause'' n of None \<Rightarrow> None | Some ic \<Rightarrow> get ''namedBindings'' ic) of
        None \<Rightarrow> []
      | Some nb \<Rightarrow> if kind nb = ''NamedImports'' then getAll ''elements'' nb else [])"
  have tot: "foldOpt markReactTypeName elements c \<noteq> None \<and>
             foldOpt markTypeOnlySpecifier elements c \<noteq> None" for c
  proof (cases "get ''importClause'' n")
    case None
    then show ?thesis by (simp add: elements_def)
  next
    case (Some ic)
    then have wic: "wellTyped ic" using wellTyped_get[OF assms] by blast
    show ?thesis
    proof (cases "get ''namedBindings'' ic")
      case None
      then show ?thesis using Some by (simp add: elements_def)
    next
      case nb: (Some nb)
      then have wnb: "wellTyped nb" using wellTyped_get[OF wic] by blast
      show ?thesis
      proof (cases "kind nb = ''NamedImports''")
        case True
        then show ?thesis using Some nb specifier_loops_total[OF wnb, of c]
          by (simp add: elements_def)
      next
        case False
        then show ?thesis using Some nb by (simp add: elements_def)
      qed
    qed
  qed
  obtain c1 where c1:
    "foldOpt markReactTypeName elements (addRegion (getStart n) (getEnd n) typescript ctx) = Some c1"
    using tot[of "addRegion (getStart n) (getEnd n) typescript ctx"]
    by (cases "foldOpt markReactTypeName elements (addRegion (getStart n) (getEnd n) typescript ctx)") auto
  obtain c2 where c2:
    "foldOpt markTypeOnlySpecifier elements (addRegion (getStart n) (getEnd n) javascript ctx) = Some c2"
    using tot[of "addRegion (getStart n) (getEnd n) javascript ctx"]
    by (cases "foldOpt markTypeOnlySpecifier elements (addRegion (getStart n) (getEnd n) javascript ctx)") auto
  show ?thesis
    using c1 c2 unfolding elements_def by (simp add: visitImportDeclaration_def Let_def)
qed

lemma visitExportDeclaration_total:
  assumes "wellTyped n"
  shows "visitExportDeclaration n ctx \<noteq> None"
proof -
  define elements where "elements =
     (case get ''exportClause'' n of
        None \<Rightarrow> []
      | Some ec \<Rightarrow> if kind ec = ''NamedExports'' then getAll ''elements'' ec else [])"
  have tot: "foldOpt markReactTypeName elements c \<noteq> None \<and>
             foldOpt markTypeOnlySpecifier elements c \<noteq> None" for c
  proof (cases "get ''exportClause'' n")
    case None
    then show ?thesis by (simp add: elements_def)
  next
    case (Some ec)
    then have wec: "wellTyped ec" using wellTyped_get[OF assms] by blast
    show ?thesis
    proof (cases "kind ec = ''NamedExports''")
      case True
      then show ?thesis using Some specifier_loops_total[OF wec, of c]
        by (simp add: elements_def)
    next
      case False
      then show ?thesis using Some by (simp add: elements_def)
    qed
  qed
  obtain c1 where c1:
    "foldOpt markReactTypeName elements (addRegion (getStart n) (getEnd n) typescript ctx) = Some c1"
    using tot[of "addRegion (getStart n) (getEnd n) typescript ctx"]
    by (cases "foldOpt markReactTypeName elements (addRegion (getStart n) (getEnd n) typescript ctx)") auto
  obtain c2 where c2:
    "foldOpt markTypeOnlySpecifier elements (addRegion (getStart n) (getEnd n) javascript ctx) = Some c2"
    using tot[of "addRegion (getStart n) (getEnd n) javascript ctx"]
    by (cases "foldOpt markTypeOnlySpecifier elements (addRegion (getStart n) (getEnd n) javascript ctx)") auto
  show ?thesis
    using c1 c2 unfolding elements_def by (simp add: visitExportDeclaration_def Let_def)
qed


lemma markFirstArgument_total:
  assumes "wellTyped x"
  shows "markFirstArgument sourceText x c \<noteq> None"
proof (cases "kind x = ''PropertyAccessExpression''")
  case True
  then obtain e where "get ''expression'' x = Some e"
    using typed_expression[OF assms] by blast
  then show ?thesis using True by (simp add: markFirstArgument_def)
next
  case False
  then show ?thesis by (simp add: markFirstArgument_def)
qed

lemma markKeyProperty_total:
  assumes "wellTyped x"
  shows "markKeyProperty x c \<noteq> None"
proof (cases "kind x = ''PropertyAssignment''")
  case True
  then obtain t where "get ''name'' x = Some t" using typed_name[OF assms] by blast
  then show ?thesis using True by (simp add: markKeyProperty_def)
next
  case False
  then show ?thesis by (simp add: markKeyProperty_def)
qed

lemma firstArgument_total:
  assumes "wellTyped n"
  shows "(case getAll ''arguments'' n of
            [] \<Rightarrow> Some c
          | firstArg # _ \<Rightarrow> markFirstArgument sourceText firstArg c) \<noteq> None"
proof (cases "getAll ''arguments'' n")
  case Nil
  then show ?thesis by simp
next
  case (Cons a as)
  then have "wellTyped a" using wellTyped_getAll[OF assms, of a "''arguments''"] by simp
  then show ?thesis using Cons markFirstArgument_total by simp
qed

lemma propsArgument_total:
  assumes "wellTyped n"
  shows "(case drop 1 (getAll ''arguments'' n) of
            [] \<Rightarrow> Some c1
          | propsArg # _ \<Rightarrow>
              if kind propsArg = ''ObjectLiteralExpression''
              then foldOpt markKeyProperty (getAll ''properties'' propsArg) c1
              else Some c1) \<noteq> None"
proof (cases "drop 1 (getAll ''arguments'' n)")
  case Nil
  then show ?thesis by simp
next
  case (Cons a as)
  then have "a \<in> set (drop 1 (getAll ''arguments'' n))" by simp
  then have "a \<in> set (getAll ''arguments'' n)" by (rule in_set_dropD)
  then have wa: "wellTyped a" using wellTyped_getAll[OF assms] by blast
  have "foldOpt markKeyProperty (getAll ''properties'' a) c1 \<noteq> None"
  proof (rule foldOpt_total)
    fix x d assume "x \<in> set (getAll ''properties'' a)"
    then have "wellTyped x" using wellTyped_getAll[OF wa] by blast
    then show "markKeyProperty x d \<noteq> None" by (rule markKeyProperty_total)
  qed
  then show ?thesis using Cons by simp
qed

lemma visitCallExpression_total:
  assumes "wellTyped n" and "kind n = ''CallExpression''"
  shows "visitCallExpression sourceText n ctx \<noteq> None"
proof -
  obtain e where e: "get ''expression'' n = Some e"
    using typed_expression[OF assms(1)] assms(2) by blast
  define c0 where "c0 = addRegion (getStart e) (getEnd e) react
                       (markTypeArguments sourceText (getAll ''typeArguments'' n) ctx)"
  obtain c1 where c1: "(case getAll ''arguments'' n of
            [] \<Rightarrow> Some c0
          | firstArg # _ \<Rightarrow> markFirstArgument sourceText firstArg c0) = Some c1"
    using firstArgument_total[OF assms(1), of c0 sourceText]
    by (cases "(case getAll ''arguments'' n of
            [] \<Rightarrow> Some c0
          | firstArg # _ \<Rightarrow> markFirstArgument sourceText firstArg c0)") auto
  obtain c2 where c2: "(case drop 1 (getAll ''arguments'' n) of
            [] \<Rightarrow> Some c1
          | propsArg # _ \<Rightarrow>
              if kind propsArg = ''ObjectLiteralExpression''
              then foldOpt markKeyProperty (getAll ''properties'' propsArg) c1
              else Some c1) = Some c2"
    using propsArgument_total[OF assms(1), of c1]
    by (cases "(case drop 1 (getAll ''arguments'' n) of
            [] \<Rightarrow> Some c1
          | propsArg # _ \<Rightarrow>
              if kind propsArg = ''ObjectLiteralExpression''
              then foldOpt markKeyProperty (getAll ''properties'' propsArg) c1
              else Some c1)") auto
  show ?thesis
    using e c1 c2 unfolding c0_def
    by (simp add: visitCallExpression_def Let_def)
qed

lemma visitNode_total:
  assumes "wellTyped n"
  shows "visitNode sourceText n ctx \<noteq> None"
  unfolding visitNode_def
  using assms
  by (simp del: not_None_eq add: visitJsxElement_total visitJsxSelfClosingElement_total
      visitJsxOpeningElement_total visitJsxClosingElement_total visitJsxAttribute_total
      visitExpressionStatement_total visitVariableStatement_total
      visitExpressionWithTypeArguments_total visitAsExpression_total
      visitTypeAssertionExpression_total visitSatisfiesExpression_total
      visitNonNullExpression_total visitPropertyAccessExpression_total
      visitImportDeclaration_total visitExportDeclaration_total visitCallExpression_total
      standardClassification_total
      visitJsxExpression_def visitJsxSpreadAttribute_def visitDecorator_def
      visitInterfaceDeclaration_def visitTypeAliasDeclaration_def visitEnumDeclaration_def
      visitModuleDeclaration_def visitClassDeclaration_def visitVariableDeclaration_def
      visitParameter_def visitPropertySignature_def visitPropertyDeclaration_def
      visitFunctionDeclaration_def visitMethodDeclaration_def visitArrowFunction_def
      visitFunctionExpression_def visitGetAccessor_def visitNewExpression_def Let_def)

lemma visit_total: "wellTyped n \<Longrightarrow> visit sourceText n ctx \<noteq> None"
proof (induction sourceText n ctx rule: visit.induct)
  case (1 sourceText n ctx)
  obtain c1 kids where v: "visitNode sourceText n ctx = Some (c1, kids)"
    using visitNode_total[OF 1(2), of sourceText ctx]
    by (cases "visitNode sourceText n ctx") auto
  have "foldOpt (visit sourceText) kids c1 \<noteq> None"
  proof (rule foldOpt_total)
    fix x d assume x: "x \<in> set kids"
    then have "x \<in> set (forEachChild n)" using visitNode_kids[OF v] by blast
    then have "wellTyped x" using wellTyped_child[OF 1(2)] by blast
    then show "visit sourceText x d \<noteq> None" using 1(1)[OF v refl x] by simp
  qed
  then show ?case using v by (subst visit.simps) simp
qed

section \<open>The comment scanner: lemmas\<close>

lemma comments_added_refl [simp]: "comments_added c c"
  by (simp add: comments_added_def)

lemma comments_added_trans: "comments_added a b \<Longrightarrow> comments_added b c \<Longrightarrow> comments_added a c"
  by (auto simp: comments_added_def)

lemma comments_added_addRegion:
  "comments_added a b \<Longrightarrow> comments_added a (addRegion s e javascript b)"
  by (auto simp: comments_added_def addRegion_def well_formed_def)

lemma comments_added_fold_ranges:
  "comments_added a b \<Longrightarrow>
   comments_added a (fold (\<lambda>comment c. addRegion (fst comment) (snd comment) javascript c) xs b)"
  by (induction xs arbitrary: b) (auto intro: comments_added_addRegion)

lemma comments_added_fold:
  assumes "\<And>x b. x \<in> set xs \<Longrightarrow> comments_added b (f x b)"
  shows "comments_added a b \<Longrightarrow> comments_added a (fold f xs b)"
  using assms
proof (induction xs arbitrary: b)
  case Nil
  then show ?case by simp
next
  case (Cons x xs)
  have "comments_added a (f x b)"
    using Cons.prems(1) Cons.prems(2)[of x b] comments_added_trans by auto
  then show ?case using Cons.IH[of "f x b"] Cons.prems(2) by simp
qed

lemma visitForComments_effect: "comments_added ctx (visitForComments ts sourceText n ctx)"
proof (induction ts sourceText n ctx rule: visitForComments.induct)
  case (1 ts sourceText n ctx)
  define c1 where "c1 = (if getFullStart n < getStart n
                 then fold (\<lambda>comment c. addRegion (fst comment) (snd comment) javascript c)
                        (getLeadingCommentRanges ts sourceText (getFullStart n)) ctx
                 else ctx)"
  define c2 where "c2 = fold (\<lambda>comment c. addRegion (fst comment) (snd comment) javascript c)
                  (getTrailingCommentRanges ts sourceText (getEnd n)) c1"
  have a: "comments_added ctx c1"
    unfolding c1_def by (auto intro: comments_added_fold_ranges)
  have b: "comments_added ctx c2"
    unfolding c2_def using a by (rule comments_added_fold_ranges)
  have eq: "visitForComments ts sourceText n ctx =
        fold (visitForComments ts sourceText) (forEachChild n) c2"
    by (subst visitForComments.simps) (simp add: Let_def c1_def c2_def)
  have "comments_added ctx (fold (visitForComments ts sourceText) (forEachChild n) c2)"
  proof (rule comments_added_fold[OF _ b])
    fix x d assume "x \<in> set (forEachChild n)"
    then show "comments_added d (visitForComments ts sourceText x d)"
      using 1[OF refl refl refl refl] by simp
  qed
  then show ?case using eq by simp
qed

lemma fold_id: "(\<And>x c. x \<in> set xs \<Longrightarrow> f x c = c) \<Longrightarrow> fold f xs c = c"
  by (induction xs) simp_all

lemma visitForComments_none:
  assumes "\<forall>pos. getLeadingCommentRanges ts sourceText pos = [] \<and>
                getTrailingCommentRanges ts sourceText pos = []"
  shows "visitForComments ts sourceText n ctx = ctx"
  using assms
proof (induction ts sourceText n ctx rule: visitForComments.induct)
  case (1 ts sourceText n ctx)
  have "fold (visitForComments ts sourceText) (forEachChild n) ctx = ctx"
  proof (rule fold_id)
    fix x c assume "x \<in> set (forEachChild n)"
    then show "visitForComments ts sourceText x c = c"
      using 1(1)[OF refl refl refl refl _ 1(2)] by simp
  qed
  then show ?case using 1(2) by (subst visitForComments.simps) (simp add: Let_def)
qed

subsection \<open>The candidates of the comment scanner\<close>






section \<open>The entry point: lemmas\<close>


lemma classifyDocument_result:
  "visit sourceText (createSourceFile ts sourceText) \<lparr>rawRegions = [], enumNames = {}\<rparr> = Some ctx \<Longrightarrow>
   classifyDocument ts sourceText =
     Some (resolveOverlaps
             (rawRegions (collectComments ts (createSourceFile ts sourceText) sourceText ctx))
             (length sourceText))"
  by (simp add: classifyDocument_def Let_def)

lemma classifyDocument_total:
  assumes "wellTyped (createSourceFile ts sourceText)"
  shows "\<exists>ctx. visit sourceText (createSourceFile ts sourceText) \<lparr>rawRegions = [], enumNames = {}\<rparr> = Some ctx"
  using visit_total[OF assms, of sourceText "\<lparr>rawRegions = [], enumNames = {}\<rparr>"] by auto

lemma classifyDocument_Some:
  assumes "classifyDocument ts sourceText = Some regions"
  shows "\<exists>raw. regions = resolveOverlaps raw (length sourceText)"
  using assms by (auto simp: classifyDocument_def Let_def split: bind_splits)

lemma visitNode_SourceFile:
  "kind n = ''SourceFile'' \<Longrightarrow> visitNode sourceText n ctx = Some (ctx, forEachChild n)"
  by (simp add: visitNode_def standardClassification_def classifyNode_def isTypeScriptNode_def
      isJsxStructuralNode_def isJavaScriptNode_def)

lemma visitNode_EndOfFileToken:
  "kind n = ''EndOfFileToken'' \<Longrightarrow> visitNode sourceText n ctx = Some (ctx, forEachChild n)"
  by (simp add: visitNode_def standardClassification_def classifyNode_def isTypeScriptNode_def
      isJsxStructuralNode_def isJavaScriptNode_def)

lemma foldOpt_id: "(\<And>x c. x \<in> set xs \<Longrightarrow> f x c = Some c) \<Longrightarrow> foldOpt f xs c = Some c"
  by (induction xs) simp_all

lemma visit_blank:
  assumes "isBlankSourceFile t"
  shows "visit sourceText t ctx = Some ctx"
proof -
  have k: "kind t = ''SourceFile''" using assms by (simp add: isBlankSourceFile_def)
  have kids: "visit sourceText c d = Some d" if "c \<in> set (forEachChild t)" for c d
  proof -
    have "kind c = ''EndOfFileToken''" "forEachChild c = []"
      using assms that by (auto simp: isBlankSourceFile_def list_all_iff)
    then show ?thesis by (subst visit.simps) (simp add: visitNode_EndOfFileToken)
  qed
  have "foldOpt (visit sourceText) (forEachChild t) ctx = Some ctx"
    by (rule foldOpt_id) (rule kids)
  then show ?thesis by (subst visit.simps) (simp add: visitNode_SourceFile[OF k])
qed

subsection \<open>The example documents, evaluated\<close>

lemma two_statements_classified:
  "classifyDocument two_statements_ts two_statements_text =
     Some [\<lparr>start = 0, endp = 12, layer = javascript\<rparr>,
           \<lparr>start = 13, endp = 25, layer = javascript\<rparr>]"
  by code_simp

lemma two_statements_wellTyped: "wellTyped two_statements_tree"
  by code_simp

lemma as_classified:
  "classifyDocument as_ts as_text =
     Some [\<lparr>start = 0, endp = 1, layer = javascript\<rparr>,
           \<lparr>start = 1, endp = 6, layer = typescript\<rparr>]"
  by code_simp

lemma as_wellTyped: "wellTyped as_tree"
  by code_simp







section \<open>The calls in one store: lemmas\<close>

lemma load_save: "r \<noteq> e \<Longrightarrow> load r e (save r e ctx s) = ctx"
  by (simp add: load_def save_def regionsAt_def namesAt_def)

lemma save_save: "save r e c' (save r e c s) = save r e c' s"
  by (simp add: save_def)

lemma regionsAt_save: "r \<noteq> e \<Longrightarrow> regionsAt (save r e ctx s) r = rawRegions ctx"
  by (simp add: save_def regionsAt_def)

lemma objects_save: "a \<noteq> r \<Longrightarrow> a \<noteq> e \<Longrightarrow> objects (save r e ctx s) a = objects s a"
  by (simp add: save_def)

lemma nextRef_save: "nextRef (save r e ctx s) = nextRef s"
  by (simp add: save_def)

lemma foldOpt_in_store:
  assumes "\<And>x s. x \<in> set xs \<Longrightarrow> f x s = map_option (\<lambda>c. save r e c s) (g x (load r e s))"
    and "r \<noteq> e"
  shows "foldOpt f xs (save r e c0 s) = map_option (\<lambda>c. save r e c s) (foldOpt g xs c0)"
  using assms(1)
proof (induction xs arbitrary: c0)
  case Nil
  then show ?case by simp
next
  case (Cons x xs)
  have fx: "f x (save r e c0 s) = map_option (\<lambda>c. save r e c s) (g x c0)"
    using Cons.prems[of x "save r e c0 s"] assms(2) by (simp add: load_save save_save)
  show ?case
  proof (cases "g x c0")
    case None
    then show ?thesis using fx by simp
  next
    case (Some c1)
    have "foldOpt f xs (save r e c1 s) = map_option (\<lambda>c. save r e c s) (foldOpt g xs c1)"
    proof (rule Cons.IH)
      fix y t assume "y \<in> set xs"
      then show "f y t = map_option (\<lambda>c. save r e c t) (g y (load r e t))"
        using Cons.prems[of y t] by simp
    qed
    then show ?thesis using fx Some by simp
  qed
qed

lemma visitS_visit:
  "r \<noteq> e \<Longrightarrow>
   visitS r e sourceText n s =
     map_option (\<lambda>c. save r e c s) (visit sourceText n (load r e s))"
proof (induction r e sourceText n s rule: visitS.induct)
  case (1 r e sourceText n s)
  note ne = \<open>r \<noteq> e\<close>
  show ?case
  proof (cases "visitNode sourceText n (load r e s)")
    case None
    then show ?thesis
      by (subst visitS.simps, subst visit.simps) simp
  next
    case (Some res)
    obtain ctx' kids where res: "res = (ctx', kids)" by (cases res)
    have "foldOpt (visitS r e sourceText) kids (save r e ctx' s) =
          map_option (\<lambda>c. save r e c s) (foldOpt (visit sourceText) kids ctx')"
    proof (rule foldOpt_in_store[of kids "visitS r e sourceText" r e "visit sourceText" ctx' s])
      fix x t assume "x \<in> set kids"
      then show "visitS r e sourceText x t =
                 map_option (\<lambda>c. save r e c t) (visit sourceText x (load r e t))"
        using 1(1)[OF Some res[symmetric] _ ne] by simp
    next
      show "r \<noteq> e" by (rule ne)
    qed
    then show ?thesis using Some res
      by (subst visitS.simps, subst visit.simps) simp
  qed
qed

lemma load_fresh:
  "load (nextRef s) (Suc (nextRef s))
     (snd (alloc (NameSet {}) (snd (alloc (RegionArray []) s)))) =
   \<lparr>rawRegions = [], enumNames = {}\<rparr>"
  by (simp add: alloc_def load_def regionsAt_def namesAt_def)

lemma classifyDocumentS_unfold:
  assumes "r = nextRef s" and "e = Suc (nextRef s)"
    and "s2 = snd (alloc (NameSet {}) (snd (alloc (RegionArray []) s)))"
  shows "classifyDocumentS ts sourceText s =
     (case visitS r e sourceText (createSourceFile ts sourceText) s2 of
        None \<Rightarrow> (None, s2)
      | Some s3 \<Rightarrow>
          (Some (resolveOverlaps
                   (regionsAt
                      (save r e
                         (collectComments ts (createSourceFile ts sourceText) sourceText
                            (load r e s3)) s3)
                      r)
                   (length sourceText)),
           save r e
             (collectComments ts (createSourceFile ts sourceText) sourceText
                (load r e s3)) s3))"
  using assms by (simp add: classifyDocumentS_def alloc_def Let_def cong: option.case_cong)

lemma classifyDocumentS_result:
  "fst (classifyDocumentS ts sourceText s) = classifyDocument ts sourceText"
proof -
  define r where "r = nextRef s"
  define e where "e = Suc (nextRef s)"
  define s2 where "s2 = snd (alloc (NameSet {}) (snd (alloc (RegionArray []) s)))"
  have ne: "r \<noteq> e" by (simp add: r_def e_def)
  have fresh: "load r e s2 = \<lparr>rawRegions = [], enumNames = {}\<rparr>"
    unfolding r_def e_def s2_def by (rule load_fresh)
  have v: "visitS r e sourceText (createSourceFile ts sourceText) s2 =
        map_option (\<lambda>c. save r e c s2)
          (visit sourceText (createSourceFile ts sourceText) \<lparr>rawRegions = [], enumNames = {}\<rparr>)"
    using visitS_visit[OF ne, of sourceText "createSourceFile ts sourceText" s2] fresh by simp
  show ?thesis
  proof (cases "visit sourceText (createSourceFile ts sourceText)
                  \<lparr>rawRegions = [], enumNames = {}\<rparr>")
    case None
    then show ?thesis
      using v unfolding classifyDocumentS_unfold[OF r_def e_def s2_def]
      by (simp add: classifyDocument_def)
  next
    case (Some ctx)
    then show ?thesis
      using v ne unfolding classifyDocumentS_unfold[OF r_def e_def s2_def]
      by (simp add: classifyDocument_def load_save regionsAt_save)
  qed
qed

lemma classifyDocumentS_frame:
  assumes "a < nextRef s"
  shows "objects (snd (classifyDocumentS ts sourceText s)) a = objects s a"
proof -
  define r where "r = nextRef s"
  define e where "e = Suc (nextRef s)"
  define s2 where "s2 = snd (alloc (NameSet {}) (snd (alloc (RegionArray []) s)))"
  have ne: "r \<noteq> e" and ar: "a \<noteq> r" and ae: "a \<noteq> e" using assms by (simp_all add: r_def e_def)
  have o2: "objects s2 a = objects s a" using assms by (simp add: s2_def alloc_def)
  have v: "visitS r e sourceText (createSourceFile ts sourceText) s2 =
        map_option (\<lambda>c. save r e c s2)
          (visit sourceText (createSourceFile ts sourceText) (load r e s2))"
    by (rule visitS_visit[OF ne])
  show ?thesis
  proof (cases "visit sourceText (createSourceFile ts sourceText) (load r e s2)")
    case None
    then show ?thesis
      using v o2 unfolding classifyDocumentS_unfold[OF r_def e_def s2_def]
      by simp
  next
    case (Some ctx)
    then show ?thesis
      using v o2 ar ae unfolding classifyDocumentS_unfold[OF r_def e_def s2_def]
      by (simp add: objects_save)
  qed
qed

lemma runCalls_length: "length (fst (runCalls ts texts s)) = length texts"
proof (induction texts arbitrary: s)
  case Nil
  then show ?case by simp
next
  case (Cons t texts)
  obtain out s' where c: "classifyDocumentS ts t s = (out, s')"
    by (cases "classifyDocumentS ts t s")
  obtain rest s'' where r: "runCalls ts texts s' = (rest, s'')"
    by (cases "runCalls ts texts s'")
  have "length (fst (runCalls ts texts s')) = length texts" by (rule Cons.IH)
  then show ?case using c r by simp
qed

lemma runCalls_nth:
  "i < length texts \<Longrightarrow> fst (runCalls ts texts s) ! i = classifyDocument ts (texts ! i)"
proof (induction texts arbitrary: i s)
  case Nil
  then show ?case by simp
next
  case (Cons t texts)
  obtain out s' where c: "classifyDocumentS ts t s = (out, s')"
    by (cases "classifyDocumentS ts t s")
  obtain rest s'' where r: "runCalls ts texts s' = (rest, s'')"
    by (cases "runCalls ts texts s'")
  have o: "out = classifyDocument ts t" using classifyDocumentS_result[of ts t s] c by simp
  show ?case
  proof (cases i)
    case 0
    then show ?thesis using c r o by simp
  next
    case (Suc k)
    then have "k < length texts" using Cons.prems by simp
    then have "fst (runCalls ts texts s') ! k = classifyDocument ts (texts ! k)"
      by (rule Cons.IH)
    then show ?thesis using c r Suc by simp
  qed
qed

section \<open>Call expressions and type-parameter lists: lemmas\<close>















section \<open>The record of the visits: lemmas\<close>

lemma foldOpt_fst:
  assumes "\<And>x st. x \<in> set xs \<Longrightarrow> map_option fst (f x st) = g x (fst st)"
  shows "map_option fst (foldOpt f xs st) = foldOpt g xs (fst st)"
  using assms
proof (induction xs arbitrary: st)
  case Nil
  then show ?case by simp
next
  case (Cons x xs)
  have fx: "map_option fst (f x st) = g x (fst st)" using Cons.prems[of x st] by simp
  show ?case
  proof (cases "f x st")
    case None
    then show ?thesis using fx by simp
  next
    case (Some st')
    have gx: "g x (fst st) = Some (fst st')" using fx Some by simp
    have "map_option fst (foldOpt f xs st') = foldOpt g xs (fst st')"
    proof (rule Cons.IH)
      fix y t assume "y \<in> set xs"
      then show "map_option fst (f y t) = g y (fst t)" using Cons.prems[of y t] by simp
    qed
    then show ?thesis using gx Some by simp
  qed
qed

lemma visitLog_visit: "map_option fst (visitLog sourceText n st) = visit sourceText n (fst st)"
proof (induction sourceText n st rule: visitLog.induct)
  case (1 sourceText n ctx calls)
  show ?case
  proof (cases "visitNode sourceText n ctx")
    case None
    then show ?thesis by (subst visitLog.simps, subst visit.simps) simp
  next
    case (Some res)
    obtain ctx' kids where res: "res = (ctx', kids)" by (cases res)
    have "map_option fst (foldOpt (visitLog sourceText) kids (ctx', calls @ [(n, ctx)])) =
          foldOpt (visit sourceText) kids (fst (ctx', calls @ [(n, ctx)]))"
    proof (rule foldOpt_fst)
      fix x st assume "x \<in> set kids"
      then show "map_option fst (visitLog sourceText x st) = visit sourceText x (fst st)"
        using 1[OF Some res[symmetric]] by simp
    qed
    then show ?thesis using Some res by (subst visitLog.simps, subst visit.simps) simp
  qed
qed

lemma enumsBefore_append_left:
  "k \<le> length xs \<Longrightarrow> enumsBefore (xs @ ys) k = enumsBefore xs k"
  by (simp add: enumsBefore_def)

lemma enumsBefore_append_right:
  "length xs \<le> k \<Longrightarrow>
   enumsBefore (xs @ ys) k = enumsBefore xs (length xs) \<union> enumsBefore ys (k - length xs)"
  by (auto simp: enumsBefore_def)

lemma walked_single:
  assumes "visitNode sourceText n ctx = Some (ctx', kids)"
  shows "walked sourceText ctx [(n, ctx)] ctx'"
  using visitNode_effect[OF assms] assms by (simp add: walked_def enumsBefore_def)

lemma walked_append:
  assumes a: "walked sourceText a xs b" and b: "walked sourceText b ys c"
  shows "walked sourceText a (xs @ ys) c"
proof -
  have g: "grows a c" using a b grows_trans by (auto simp: walked_def)
  have gb: "grows b c" using b by (simp add: walked_def)
  have nb: "enumNames b = enumNames a \<union> enumsBefore xs (length xs)"
    using a by (simp add: walked_def)
  have n: "enumNames c = enumNames a \<union> enumsBefore (xs @ ys) (length (xs @ ys))"
    using b nb by (auto simp: walked_def enumsBefore_append_right)
  have e: "enumNames (snd ((xs @ ys) ! k)) = enumNames a \<union> enumsBefore (xs @ ys) k \<and>
        (\<forall>c' kids. visitNode sourceText (fst ((xs @ ys) ! k)) (snd ((xs @ ys) ! k)) =
            Some (c', kids) \<longrightarrow> grows c' c)"
    if k: "k < length (xs @ ys)" for k
  proof (cases "k < length xs")
    case True
    then have "enumNames (snd (xs ! k)) = enumNames a \<union> enumsBefore xs k"
      and "\<forall>c' kids. visitNode sourceText (fst (xs ! k)) (snd (xs ! k)) = Some (c', kids) \<longrightarrow>
             grows c' b"
      using a by (simp_all add: walked_def)
    then show ?thesis using True gb grows_trans
      by (auto simp: nth_append enumsBefore_append_left)
  next
    case False
    define j where "j = k - length xs"
    have j: "j < length ys" using k False by (simp add: j_def)
    have nth: "(xs @ ys) ! k = ys ! j" using False by (simp add: nth_append j_def)
    have "enumNames (snd (ys ! j)) = enumNames b \<union> enumsBefore ys j"
      and "\<forall>c' kids. visitNode sourceText (fst (ys ! j)) (snd (ys ! j)) = Some (c', kids) \<longrightarrow>
             grows c' c"
      using b j by (simp_all add: walked_def)
    moreover have "enumsBefore (xs @ ys) k = enumsBefore xs (length xs) \<union> enumsBefore ys j"
      using False by (simp add: enumsBefore_append_right j_def)
    ultimately show ?thesis using nth nb by auto
  qed
  show ?thesis unfolding walked_def using g n e by blast
qed

lemma foldOpt_walked:
  assumes "\<And>x st c' cs'. x \<in> set xs \<Longrightarrow> f x st = Some (c', cs') \<Longrightarrow>
             \<exists>new. cs' = snd st @ new \<and> walked sourceText (fst st) new c'"
  shows "foldOpt f xs st = Some (c', cs') \<Longrightarrow>
         \<exists>new. cs' = snd st @ new \<and> walked sourceText (fst st) new c'"
  using assms
proof (induction xs arbitrary: st)
  case Nil
  then have "st = (c', cs')" by simp
  then show ?case by (auto simp: walked_def enumsBefore_def)
next
  case (Cons x xs)
  from Cons.prems(1) obtain st1 where f1: "f x st = Some st1"
    and f2: "foldOpt f xs st1 = Some (c', cs')"
    by (auto split: option.splits)
  obtain c1 cs1 where st1: "st1 = (c1, cs1)" by (cases st1)
  obtain new1 where n1: "cs1 = snd st @ new1" "walked sourceText (fst st) new1 c1"
    using Cons.prems(2)[of x st c1 cs1] f1 st1 by auto
  have "\<exists>new. cs' = snd st1 @ new \<and> walked sourceText (fst st1) new c'"
  proof (rule Cons.IH[OF f2])
    fix y t d ds assume "y \<in> set xs" "f y t = Some (d, ds)"
    then show "\<exists>new. ds = snd t @ new \<and> walked sourceText (fst t) new d"
      using Cons.prems(2)[of y t d ds] by simp
  qed
  then obtain new2 where n2: "cs' = cs1 @ new2" "walked sourceText c1 new2 c'"
    using st1 by auto
  have "cs' = snd st @ (new1 @ new2)" using n1(1) n2(1) by simp
  moreover have "walked sourceText (fst st) (new1 @ new2) c'"
    using walked_append[OF n1(2) n2(2)] .
  ultimately show ?case by blast
qed

lemma visitLog_walked:
  "visitLog sourceText n st = Some (c', cs') \<Longrightarrow>
   \<exists>new. cs' = snd st @ new \<and> walked sourceText (fst st) new c'"
proof (induction sourceText n st arbitrary: c' cs' rule: visitLog.induct)
  case (1 sourceText n ctx calls)
  from 1(2) obtain c1 kids where v: "visitNode sourceText n ctx = Some (c1, kids)"
    and f: "foldOpt (visitLog sourceText) kids (c1, calls @ [(n, ctx)]) = Some (c', cs')"
    by (subst (asm) visitLog.simps) (auto split: option.splits)
  have "\<exists>new. cs' = snd (c1, calls @ [(n, ctx)]) @ new \<and>
          walked sourceText (fst (c1, calls @ [(n, ctx)])) new c'"
  proof (rule foldOpt_walked[OF _ f])
    fix x st d ds assume "x \<in> set kids" "visitLog sourceText x st = Some (d, ds)"
    then show "\<exists>new. ds = snd st @ new \<and> walked sourceText (fst st) new d"
      using 1(1)[OF v refl] by simp
  qed
  then obtain new2 where n2: "cs' = (calls @ [(n, ctx)]) @ new2" "walked sourceText c1 new2 c'"
    by auto
  have "cs' = snd (ctx, calls) @ ([(n, ctx)] @ new2)" using n2(1) by simp
  moreover have "walked sourceText (fst (ctx, calls)) ([(n, ctx)] @ new2) c'"
    using walked_append[OF walked_single[OF v] n2(2)] by simp
  ultimately show ?case by blast
qed

lemma declaredEnum_iff:
  "x \<in> declaredEnum n \<longleftrightarrow>
     kind n = ''EnumDeclaration'' \<and> (\<exists>nm. get ''name'' n = Some nm \<and> textOf nm = x)"
  by (auto simp: declaredEnum_def split: option.splits)

lemma enumsBefore_iff:
  assumes "k \<le> length calls"
  shows "x \<in> enumsBefore calls k \<longleftrightarrow>
     (\<exists>j<k. kind (fst (calls ! j)) = ''EnumDeclaration'' \<and>
        (\<exists>nm. get ''name'' (fst (calls ! j)) = Some nm \<and> textOf nm = x))"
proof -
  have "x \<in> enumsBefore calls k \<longleftrightarrow> (\<exists>j<k. x \<in> declaredEnum (fst (calls ! j)))"
  proof
    assume "x \<in> enumsBefore calls k"
    then obtain c where c: "c \<in> set (take k calls)" "x \<in> declaredEnum (fst c)"
      by (auto simp: enumsBefore_def)
    then obtain j where "j < length (take k calls)" "take k calls ! j = c"
      by (auto simp: in_set_conv_nth)
    then have "j < k" "calls ! j = c" using assms by simp_all
    then show "\<exists>j<k. x \<in> declaredEnum (fst (calls ! j))" using c(2) by blast
  next
    assume "\<exists>j<k. x \<in> declaredEnum (fst (calls ! j))"
    then obtain j where j: "j < k" "x \<in> declaredEnum (fst (calls ! j))" by blast
    then have "j < length (take k calls)" "take k calls ! j = calls ! j" using assms by simp_all
    then have "calls ! j \<in> set (take k calls)" by (metis nth_mem)
    then show "x \<in> enumsBefore calls k" using j(2) by (auto simp: enumsBefore_def)
  qed
  then show ?thesis by (simp add: declaredEnum_iff)
qed

lemma visitNode_PropertyAccessExpression:
  "kind n = ''PropertyAccessExpression'' \<Longrightarrow>
   visitNode sourceText n ctx = visitPropertyAccessExpression sourceText n ctx"
  by (simp add: visitNode_def)

lemma classifyNode_PropertyAccessExpression:
  "kind n = ''PropertyAccessExpression'' \<Longrightarrow> classifyNode sourceText n = Some (Some javascript)"
  by (simp add: classifyNode_def isTypeScriptNode_def isJsxStructuralNode_def
      isJavaScriptNode_def)

lemma property_access_step:
  assumes "kind a = ''PropertyAccessExpression''" and "get ''expression'' a = Some b"
    and "kind b = ''Identifier''" and "getStart a < getEnd a"
  shows "visitNode sourceText a ctx =
     (if textOf b \<in> enumNames ctx
      then Some (ctx\<lparr>rawRegions := rawRegions ctx @
                   [\<lparr>start = getStart a, endp = getEnd a, layer = typescript, priority = 3\<rparr>]\<rparr>,
                 [])
      else Some (ctx\<lparr>rawRegions := rawRegions ctx @
                   [\<lparr>start = getStart a, endp = getEnd a, layer = javascript, priority = 1\<rparr>]\<rparr>,
                 forEachChild a))"
  using assms
  by (simp add: visitNode_PropertyAccessExpression visitPropertyAccessExpression_def
      standardClassification_def classifyNode_PropertyAccessExpression addRegion_def)

section \<open>The properties\<close>

text \<open>
  C1. Priority dominance in the overlap resolver. For every list of candidates with
  positive priorities (those of the table \<open>PRIORITY\<close> are) and every offset \<open>p\<close> of the
  document: one candidate overwrites the record of \<open>p\<close> exactly when it covers \<open>p\<close> and
  its priority is strictly greater than the recorded one; after all candidates, an offset
  that no candidate covers has no layer and priority 0, and a covered offset has the layer
  and the priority of a covering candidate \<open>k\<close> whose priority no covering candidate
  exceeds and no covering candidate emitted before \<open>k\<close> reaches, so that the first of the
  equal-priority candidates wins; the layer of the output at \<open>p\<close> is the recorded one.
\<close>

theorem resolveOverlaps_priority_dominance:
  assumes pos: "\<forall>r\<in>set candidates. 0 < priority r" and p: "p < textLength"
  shows "(\<forall>m r. length (fst m) = textLength \<and> length (snd m) = textLength \<longrightarrow>
            cell (paintRegion textLength r m) p =
              (if covers r p \<and> snd m ! p < priority r then (Some (layer r), priority r)
               else cell m p)) \<and>
         (\<not> (\<exists>r\<in>set candidates. covers r p) \<longrightarrow>
            cell (paintAll candidates textLength) p = (None, 0)) \<and>
         ((\<exists>r\<in>set candidates. covers r p) \<longrightarrow>
            (\<exists>k<length candidates. covers (candidates ! k) p \<and>
               cell (paintAll candidates textLength) p =
                 (Some (layer (candidates ! k)), priority (candidates ! k)) \<and>
               (\<forall>j<length candidates. covers (candidates ! j) p \<longrightarrow>
                  priority (candidates ! j) \<le> priority (candidates ! k)) \<and>
               (\<forall>j<k. covers (candidates ! j) p \<longrightarrow>
                  priority (candidates ! j) < priority (candidates ! k)))) \<and>
         getLayerAt (resolveOverlaps candidates textLength) (int p) =
           fst (paintAll candidates textLength) ! p"
proof -
  have step: "\<forall>m r. length (fst m) = textLength \<and> length (snd m) = textLength \<longrightarrow>
            cell (paintRegion textLength r m) p =
              (if covers r p \<and> snd m ! p < priority r then (Some (layer r), priority r)
               else cell m p)"
  proof (intro allI impI)
    fix m :: layerMaps and r
    assume len: "length (fst m) = textLength \<and> length (snd m) = textLength"
    then have "cell (paintRegion textLength r m) p = cellStep p r (cell m p)"
      using paintRegion_cell[of m textLength p r] p by simp
    then show "cell (paintRegion textLength r m) p =
              (if covers r p \<and> snd m ! p < priority r then (Some (layer r), priority r)
               else cell m p)"
      by (simp add: cellStep_def cell_def)
  qed
  show ?thesis
    using step paintAll_dominance[OF pos p] resolveOverlaps_layer[OF p, of candidates] by blast
qed

theorem resolveOverlaps_priority_dominance_witness:
  "list_all (\<lambda>r. 0 < priority r) example_candidates \<and> (1::nat) < 4 \<and>
   cell (paintAll example_candidates 4) 1 = (Some typescript, 3) \<and>
   getLayerAt (resolveOverlaps example_candidates 4) (int 1) = Some typescript"
proof -
  have h1: "\<forall>r\<in>set example_candidates. 0 < priority r"
    by (simp add: example_candidates_def)
  have h2: "(1::nat) < 4" by simp
  have c: "cell (paintAll example_candidates 4) 1 = (Some typescript, 3)"
    by code_simp
  have "getLayerAt (resolveOverlaps example_candidates 4) (int 1) =
        fst (paintAll example_candidates 4) ! 1"
    using resolveOverlaps_priority_dominance[OF h1 h2] by blast
  then show ?thesis using c h1 by (simp add: cell_def list_all_iff)
qed

text \<open>
  C4. The two bracket scans. The backward scan returns \<open>-1\<close> exactly when no \<^verbatim>\<open><\<close> stands at
  an offset from 0 to the given one, and otherwise the greatest such offset. The forward
  scan from an opening bracket returns \<open>-1\<close> when the depth stays positive to the end of the
  text, and otherwise the first offset after the opening bracket where the depth is 0,
  which holds a \<^verbatim>\<open>>\<close>. In \<^verbatim>\<open>new Map<string, Set<number>>()\<close> the backward scan from
  offset 7 (one before the first type argument) finds the \<^verbatim>\<open><\<close> at 7 and the forward scan
  the \<^verbatim>\<open>>\<close> at 27: the span is \<^verbatim>\<open><string, Set<number>>\<close>.
\<close>

theorem bracket_scans:
  "(findOpeningBracket sourceText beforePos = - 1 \<longrightarrow>
      (\<forall>q. 0 \<le> q \<and> q \<le> beforePos \<longrightarrow> charAt sourceText q \<noteq> Some CHR ''<'')) \<and>
   (findOpeningBracket sourceText beforePos \<noteq> - 1 \<longrightarrow>
      0 \<le> findOpeningBracket sourceText beforePos \<and>
      findOpeningBracket sourceText beforePos \<le> beforePos \<and>
      charAt sourceText (findOpeningBracket sourceText beforePos) = Some CHR ''<'' \<and>
      (\<forall>q. findOpeningBracket sourceText beforePos < q \<and> q \<le> beforePos \<longrightarrow>
           charAt sourceText q \<noteq> Some CHR ''<'')) \<and>
   (findMatchingCloseBracket sourceText openBracketPos = - 1 \<longrightarrow>
      (\<forall>q. openBracketPos < q \<and> q < int (length sourceText) \<longrightarrow>
           0 < depthAfter sourceText openBracketPos q)) \<and>
   (findMatchingCloseBracket sourceText openBracketPos \<noteq> - 1 \<longrightarrow>
      openBracketPos < findMatchingCloseBracket sourceText openBracketPos \<and>
      findMatchingCloseBracket sourceText openBracketPos < int (length sourceText) \<and>
      charAt sourceText (findMatchingCloseBracket sourceText openBracketPos) = Some CHR ''>'' \<and>
      depthAfter sourceText openBracketPos (findMatchingCloseBracket sourceText openBracketPos) = 0 \<and>
      (\<forall>q. openBracketPos < q \<and> q < findMatchingCloseBracket sourceText openBracketPos \<longrightarrow>
           0 < depthAfter sourceText openBracketPos q)) \<and>
   findOpeningBracket nested_generics_text 7 = 7 \<and>
   findMatchingCloseBracket nested_generics_text 7 = 27 \<and>
   substring nested_generics_text 7 (27 + 1) = ''<string, Set<number>>''"
proof -
  have a: "findOpeningBracket sourceText beforePos = - 1 \<longrightarrow>
      (\<forall>q. 0 \<le> q \<and> q \<le> beforePos \<longrightarrow> charAt sourceText q \<noteq> Some CHR ''<'')"
    using findOpeningBracket_none by blast
  have b: "findOpeningBracket sourceText beforePos \<noteq> - 1 \<longrightarrow>
      0 \<le> findOpeningBracket sourceText beforePos \<and>
      findOpeningBracket sourceText beforePos \<le> beforePos \<and>
      charAt sourceText (findOpeningBracket sourceText beforePos) = Some CHR ''<'' \<and>
      (\<forall>q. findOpeningBracket sourceText beforePos < q \<and> q \<le> beforePos \<longrightarrow>
           charAt sourceText q \<noteq> Some CHR ''<'')"
    using findOpeningBracket_found[OF refl, of sourceText beforePos] by blast
  have c: "findMatchingCloseBracket sourceText openBracketPos = - 1 \<longrightarrow>
      (\<forall>q. openBracketPos < q \<and> q < int (length sourceText) \<longrightarrow>
           0 < depthAfter sourceText openBracketPos q)"
    using findMatchingCloseBracket_none by blast
  have d: "findMatchingCloseBracket sourceText openBracketPos \<noteq> - 1 \<longrightarrow>
      openBracketPos < findMatchingCloseBracket sourceText openBracketPos \<and>
      findMatchingCloseBracket sourceText openBracketPos < int (length sourceText) \<and>
      charAt sourceText (findMatchingCloseBracket sourceText openBracketPos) = Some CHR ''>'' \<and>
      depthAfter sourceText openBracketPos (findMatchingCloseBracket sourceText openBracketPos) = 0 \<and>
      (\<forall>q. openBracketPos < q \<and> q < findMatchingCloseBracket sourceText openBracketPos \<longrightarrow>
           0 < depthAfter sourceText openBracketPos q)"
    using findMatchingCloseBracket_found[OF refl, of sourceText openBracketPos] by blast
  have e: "findOpeningBracket nested_generics_text 7 = 7"
    by (simp add: nested_generics_text_def findOpeningBracket.simps charAt_def)
  have f: "findMatchingCloseBracket nested_generics_text 7 = 27"
    by (simp add: nested_generics_text_def findMatchingCloseBracket_def closeBracketLoop.simps
        charAt_def)
  have g: "substring nested_generics_text 7 (27 + 1) = ''<string, Set<number>>''"
    by (simp add: nested_generics_text_def substring_def)
  show ?thesis using a b c d e f g by blast
qed

theorem bracket_scans_witness:
  "findMatchingCloseBracket unclosed_generics_text 10 = - 1 \<and>
   0 < depthAfter unclosed_generics_text 10 13 \<and>
   findOpeningBracket unclosed_generics_text 10 = 10 \<and>
   charAt unclosed_generics_text 10 = Some CHR ''<'' \<and>
   findOpeningBracket unclosed_generics_text 9 = - 1 \<and>
   charAt unclosed_generics_text 3 \<noteq> Some CHR ''<''"
proof -
  have h1: "findMatchingCloseBracket unclosed_generics_text 10 = - 1"
    by (simp add: unclosed_generics_text_def findMatchingCloseBracket_def closeBracketLoop.simps
        charAt_def)
  have h2: "findOpeningBracket unclosed_generics_text 10 = 10"
    by (simp add: unclosed_generics_text_def findOpeningBracket.simps charAt_def)
  have h3: "findOpeningBracket unclosed_generics_text 9 = - 1"
    by (simp add: unclosed_generics_text_def findOpeningBracket.simps charAt_def)
  have len: "(10::int) < 13 \<and> 13 < int (length unclosed_generics_text)"
    by (simp add: unclosed_generics_text_def)
  note t1 = bracket_scans[of unclosed_generics_text 10 10]
  note t2 = bracket_scans[of unclosed_generics_text 9 10]
  have "0 < depthAfter unclosed_generics_text 10 13" using t1 h1 len by blast
  moreover have "charAt unclosed_generics_text 10 = Some CHR ''<''" using t1 h2 by simp
  moreover have "charAt unclosed_generics_text 3 \<noteq> Some CHR ''<''" using t2 h3 by simp
  ultimately show ?thesis using h1 h2 h3 by blast
qed

text \<open>
  C2. The output of \<^verbatim>\<open>classifyDocument\<close> is ordered and free of overlaps. For every text
  whose syntax tree is typed as the parser's declarations say, the call returns a sequence
  (no \<^verbatim>\<open>TypeError\<close>), and every region of it ends at or before the start of the next one;
  every region is non-empty and lies inside the document, so the starts increase strictly.
\<close>

theorem classifyDocument_ordered_disjoint:
  assumes "wellTyped (createSourceFile ts sourceText)"
  shows "\<exists>regions. classifyDocument ts sourceText = Some regions \<and>
           (\<forall>i. Suc i < length regions \<longrightarrow>
                endp (regions ! i) \<le> start (regions ! Suc i) \<and>
                start (regions ! i) < start (regions ! Suc i)) \<and>
           (\<forall>r\<in>set regions. 0 \<le> start r \<and> start r < endp r \<and>
                endp r \<le> int (length sourceText))"
proof -
  obtain ctx where v: "visit sourceText (createSourceFile ts sourceText)
      \<lparr>rawRegions = [], enumNames = {}\<rparr> = Some ctx"
    using classifyDocument_total[OF assms] by blast
  define raw where "raw = rawRegions (collectComments ts (createSourceFile ts sourceText) sourceText ctx)"
  define regions where "regions = resolveOverlaps raw (length sourceText)"
  have c: "classifyDocument ts sourceText = Some regions"
    using classifyDocument_result[OF v] by (simp add: regions_def raw_def)
  have b: "\<forall>r\<in>set regions. 0 \<le> start r \<and> start r < endp r \<and> endp r \<le> int (length sourceText)"
    using resolveOverlaps_bounds[of _ raw "length sourceText"] by (auto simp: regions_def)
  have s: "sorted_wrt (\<lambda>a b. endp a \<le> start b) regions"
    unfolding regions_def by (rule resolveOverlaps_sorted)
  have o: "endp (regions ! i) \<le> start (regions ! Suc i) \<and>
           start (regions ! i) < start (regions ! Suc i)" if "Suc i < length regions" for i
  proof -
    have "endp (regions ! i) \<le> start (regions ! Suc i)"
      using sorted_wrt_nth_Suc[OF s that] .
    moreover have "regions ! i \<in> set regions" using that by simp
    then have "start (regions ! i) < endp (regions ! i)" using b by blast
    ultimately show ?thesis by simp
  qed
  show ?thesis using c o b by blast
qed

theorem classifyDocument_ordered_disjoint_witness:
  "wellTyped (createSourceFile two_statements_ts two_statements_text) \<and>
   (\<exists>regions. classifyDocument two_statements_ts two_statements_text = Some regions \<and>
           (\<forall>i. Suc i < length regions \<longrightarrow>
                endp (regions ! i) \<le> start (regions ! Suc i) \<and>
                start (regions ! i) < start (regions ! Suc i)) \<and>
           (\<forall>r\<in>set regions. 0 \<le> start r \<and> start r < endp r \<and>
                endp r \<le> int (length two_statements_text)))"
proof -
  have h: "wellTyped (createSourceFile two_statements_ts two_statements_text)"
    using two_statements_wellTyped by (simp add: two_statements_ts_def no_comments_def)
  show ?thesis using h classifyDocument_ordered_disjoint[OF h] by blast
qed


text \<open>
  C3, as stated: no two consecutive regions of the output share a layer. This fails for
  \<^verbatim>\<open>const x = 1; const y = 2;\<close>: the blank between the two statements has no layer and
  makes no region, and the two statements are two consecutive base-layer regions.
\<close>

theorem same_layer_across_gap_counterexample:
  "classifyDocument two_statements_ts two_statements_text =
     Some [\<lparr>start = 0, endp = 12, layer = javascript\<rparr>,
           \<lparr>start = 13, endp = 25, layer = javascript\<rparr>] \<and>
   layer ([\<lparr>start = 0, endp = 12, layer = javascript\<rparr>,
           \<lparr>start = 13, endp = 25, layer = javascript\<rparr>] ! 0) =
   layer ([\<lparr>start = 0, endp = 12, layer = javascript\<rparr>,
           \<lparr>start = 13, endp = 25, layer = javascript\<rparr>] ! Suc 0)"
  using two_statements_classified by simp

text \<open>
  C3, amended: two consecutive regions of the output that touch, the first ending where
  the second starts, have different layers. (Consecutive regions separated by offsets
  without a layer may share one.)
\<close>

theorem touching_regions_differ:
  assumes "wellTyped (createSourceFile ts sourceText)"
  shows "\<exists>regions. classifyDocument ts sourceText = Some regions \<and>
           (\<forall>i. Suc i < length regions \<longrightarrow>
                endp (regions ! i) = start (regions ! Suc i) \<longrightarrow>
                layer (regions ! i) \<noteq> layer (regions ! Suc i))"
proof -
  obtain ctx where v: "visit sourceText (createSourceFile ts sourceText)
      \<lparr>rawRegions = [], enumNames = {}\<rparr> = Some ctx"
    using classifyDocument_total[OF assms] by blast
  define raw where "raw = rawRegions (collectComments ts (createSourceFile ts sourceText) sourceText ctx)"
  define regions where "regions = resolveOverlaps raw (length sourceText)"
  have c: "classifyDocument ts sourceText = Some regions"
    using classifyDocument_result[OF v] by (simp add: regions_def raw_def)
  have s: "successively (\<lambda>a b. endp a = start b \<longrightarrow> layer a \<noteq> layer b) regions"
    unfolding regions_def by (rule resolveOverlaps_touching)
  have "endp (regions ! i) = start (regions ! Suc i) \<longrightarrow>
        layer (regions ! i) \<noteq> layer (regions ! Suc i)" if "Suc i < length regions" for i
    using successively_nth[OF s that] .
  then show ?thesis using c by blast
qed

theorem touching_regions_differ_witness:
  "wellTyped (createSourceFile as_ts as_text) \<and>
   classifyDocument as_ts as_text =
     Some [\<lparr>start = 0, endp = 1, layer = javascript\<rparr>,
           \<lparr>start = 1, endp = 6, layer = typescript\<rparr>] \<and>
   Suc 0 < length [\<lparr>start = 0, endp = 1, layer = javascript\<rparr>,
                   \<lparr>start = 1, endp = 6, layer = typescript\<rparr>] \<and>
   endp ([\<lparr>start = 0, endp = 1, layer = javascript\<rparr>,
          \<lparr>start = 1, endp = 6, layer = typescript\<rparr>] ! 0) =
   start ([\<lparr>start = 0, endp = 1, layer = javascript\<rparr>,
           \<lparr>start = 1, endp = 6, layer = typescript\<rparr>] ! Suc 0) \<and>
   layer ([\<lparr>start = 0, endp = 1, layer = javascript\<rparr>,
           \<lparr>start = 1, endp = 6, layer = typescript\<rparr>] ! 0) \<noteq>
   layer ([\<lparr>start = 0, endp = 1, layer = javascript\<rparr>,
           \<lparr>start = 1, endp = 6, layer = typescript\<rparr>] ! Suc 0)"
proof -
  define out where "out = [\<lparr>start = 0, endp = 1, layer = javascript\<rparr>,
                           \<lparr>start = 1, endp = 6, layer = typescript\<rparr>]"
  have h: "wellTyped (createSourceFile as_ts as_text)"
    using as_wellTyped by (simp add: as_ts_def no_comments_def)
  have c: "classifyDocument as_ts as_text = Some out"
    unfolding out_def by (rule as_classified)
  have len: "Suc 0 < length out" by (simp add: out_def)
  have touch: "endp (out ! 0) = start (out ! Suc 0)" by (simp add: out_def)
  obtain regions where r: "classifyDocument as_ts as_text = Some regions"
    and d: "\<forall>i. Suc i < length regions \<longrightarrow> endp (regions ! i) = start (regions ! Suc i) \<longrightarrow>
                layer (regions ! i) \<noteq> layer (regions ! Suc i)"
    using touching_regions_differ[OF h] by blast
  have "regions = out" using r c by simp
  then have "layer (out ! 0) \<noteq> layer (out ! Suc 0)" using d len touch by blast
  then show ?thesis using h c len touch unfolding out_def by blast
qed

text \<open>
  C6. For the empty text the output is the empty sequence whenever the walk of the tree
  the parser returns does not throw, which holds for every typed tree. For a text of
  white space, for which the parser returns a source file whose only child is the
  end-of-file token and finds no comment, the call returns the empty sequence as well;
  in neither case is an error signalled.
\<close>

theorem blank_input_empty_output:
  "(sourceText = [] \<longrightarrow> wellTyped (createSourceFile ts sourceText) \<longrightarrow>
      classifyDocument ts sourceText = Some []) \<and>
   ((\<forall>c\<in>set sourceText. isWhiteSpace c) \<longrightarrow>
    isBlankSourceFile (createSourceFile ts sourceText) \<longrightarrow>
    (\<forall>pos. getLeadingCommentRanges ts sourceText pos = [] \<and>
           getTrailingCommentRanges ts sourceText pos = []) \<longrightarrow>
      classifyDocument ts sourceText = Some [])"
proof (intro conjI impI)
  assume e: "sourceText = []" and w: "wellTyped (createSourceFile ts sourceText)"
  obtain ctx where v: "visit sourceText (createSourceFile ts sourceText)
      \<lparr>rawRegions = [], enumNames = {}\<rparr> = Some ctx"
    using classifyDocument_total[OF w] by blast
  show "classifyDocument ts sourceText = Some []"
    using classifyDocument_result[OF v] e by (simp add: resolveOverlaps_0)
next
  assume b: "isBlankSourceFile (createSourceFile ts sourceText)"
    and nc: "\<forall>pos. getLeadingCommentRanges ts sourceText pos = [] \<and>
                  getTrailingCommentRanges ts sourceText pos = []"
  have v: "visit sourceText (createSourceFile ts sourceText)
      \<lparr>rawRegions = [], enumNames = {}\<rparr> = Some \<lparr>rawRegions = [], enumNames = {}\<rparr>"
    using visit_blank[OF b] .
  show "classifyDocument ts sourceText = Some []"
    using classifyDocument_result[OF v] visitForComments_none[OF nc]
    by (simp add: collectComments_def resolveOverlaps_Nil)
qed

theorem blank_input_empty_output_witness:
  "list_all isWhiteSpace whitespace_text \<and>
   isBlankSourceFile (createSourceFile blank_ts whitespace_text) \<and>
   classifyDocument blank_ts whitespace_text = Some [] \<and>
   wellTyped (createSourceFile blank_ts []) \<and>
   classifyDocument blank_ts [] = Some []"
proof -
  have h1: "\<forall>c\<in>set whitespace_text. isWhiteSpace c" by code_simp
  have h2: "isBlankSourceFile (createSourceFile blank_ts whitespace_text)" by code_simp
  have h3: "\<forall>pos. getLeadingCommentRanges blank_ts whitespace_text pos = [] \<and>
           getTrailingCommentRanges blank_ts whitespace_text pos = []"
    by (simp add: blank_ts_def no_comments_def)
  have h4: "wellTyped (createSourceFile blank_ts [])" by code_simp
  have a: "classifyDocument blank_ts whitespace_text = Some []"
    using blank_input_empty_output[of whitespace_text blank_ts] h1 h2 h3 by blast
  have b: "classifyDocument blank_ts [] = Some []"
    using blank_input_empty_output[of "[]" blank_ts] h4 by blast
  show ?thesis using h1 h2 h4 a b by (simp add: list_all_iff)
qed





text \<open>
  C8. Property access on a tracked enum name. Take the walk of a document from the empty
  state, with the list of its calls of \<^verbatim>\<open>visit\<close> in the order they are made, and a call that
  visits a property access \<open>a\<close> whose base \<open>b\<close> is an identifier. The base is among the
  tracked names when that call starts exactly if an earlier call of the same walk visited
  an enum declaration with the name of \<open>b\<close>. If so, the call adds one candidate, the whole
  span of \<open>a\<close> in the type layer, and visits no child of \<open>a\<close>; if not, whether no such enum
  is declared or it is only visited later, the call adds the whole span of \<open>a\<close> in the base
  layer, as for any property access, and goes on with the children. In both cases the
  candidate is among those the walk ends with.
\<close>

theorem enum_access_order:
  assumes w: "visitLog sourceText (createSourceFile ts sourceText)
                (\<lparr>rawRegions = [], enumNames = {}\<rparr>, []) = Some (final, calls)"
    and k: "k < length calls" "calls ! k = (a, ctx)"
    and a: "kind a = ''PropertyAccessExpression''" "get ''expression'' a = Some b"
           "kind b = ''Identifier''" "getStart a < getEnd a"
  shows "visit sourceText (createSourceFile ts sourceText)
           \<lparr>rawRegions = [], enumNames = {}\<rparr> = Some final \<and>
         (textOf b \<in> enumNames ctx \<longleftrightarrow>
            (\<exists>j<k. kind (fst (calls ! j)) = ''EnumDeclaration'' \<and>
               (\<exists>nm. get ''name'' (fst (calls ! j)) = Some nm \<and> textOf nm = textOf b))) \<and>
         ((\<exists>j<k. kind (fst (calls ! j)) = ''EnumDeclaration'' \<and>
               (\<exists>nm. get ''name'' (fst (calls ! j)) = Some nm \<and> textOf nm = textOf b)) \<longrightarrow>
            visitNode sourceText a ctx =
              Some (ctx\<lparr>rawRegions := rawRegions ctx @
                      [\<lparr>start = getStart a, endp = getEnd a, layer = typescript,
                          priority = 3\<rparr>]\<rparr>,
                    []) \<and>
            \<lparr>start = getStart a, endp = getEnd a, layer = typescript, priority = 3\<rparr>
              \<in> set (rawRegions final)) \<and>
         (\<not> (\<exists>j<k. kind (fst (calls ! j)) = ''EnumDeclaration'' \<and>
               (\<exists>nm. get ''name'' (fst (calls ! j)) = Some nm \<and> textOf nm = textOf b)) \<longrightarrow>
            visitNode sourceText a ctx =
              Some (ctx\<lparr>rawRegions := rawRegions ctx @
                      [\<lparr>start = getStart a, endp = getEnd a, layer = javascript,
                          priority = 1\<rparr>]\<rparr>,
                    forEachChild a) \<and>
            \<lparr>start = getStart a, endp = getEnd a, layer = javascript, priority = 1\<rparr>
              \<in> set (rawRegions final))"
proof -
  define declared where "declared \<longleftrightarrow>
    (\<exists>j<k. kind (fst (calls ! j)) = ''EnumDeclaration'' \<and>
       (\<exists>nm. get ''name'' (fst (calls ! j)) = Some nm \<and> textOf nm = textOf b))"
  have v: "visit sourceText (createSourceFile ts sourceText)
             \<lparr>rawRegions = [], enumNames = {}\<rparr> = Some final"
    using visitLog_visit[of sourceText "createSourceFile ts sourceText"
        "(\<lparr>rawRegions = [], enumNames = {}\<rparr>, [])"] w by simp
  have wk: "walked sourceText \<lparr>rawRegions = [], enumNames = {}\<rparr> calls final"
    using visitLog_walked[OF w] by simp
  have names: "enumNames ctx = enumsBefore calls k"
    using wk k by (auto simp: walked_def)
  have stay: "grows c' final" if "visitNode sourceText a ctx = Some (c', kids)" for c' kids
    using wk k that by (auto simp: walked_def)
  have iff: "textOf b \<in> enumNames ctx \<longleftrightarrow> declared"
    unfolding names declared_def using enumsBefore_iff[of k calls "textOf b"] k(1) by simp
  note step = property_access_step[OF a, of sourceText ctx]
  have yes: "visitNode sourceText a ctx =
              Some (ctx\<lparr>rawRegions := rawRegions ctx @
                      [\<lparr>start = getStart a, endp = getEnd a, layer = typescript,
                          priority = 3\<rparr>]\<rparr>,
                    []) \<and>
            \<lparr>start = getStart a, endp = getEnd a, layer = typescript, priority = 3\<rparr>
              \<in> set (rawRegions final)" if declared
  proof -
    have s: "visitNode sourceText a ctx =
              Some (ctx\<lparr>rawRegions := rawRegions ctx @
                      [\<lparr>start = getStart a, endp = getEnd a, layer = typescript,
                          priority = 3\<rparr>]\<rparr>,
                    [])"
      using step iff that by simp
    from stay[OF s] show ?thesis using s by (auto simp: grows_def)
  qed
  have no: "visitNode sourceText a ctx =
              Some (ctx\<lparr>rawRegions := rawRegions ctx @
                      [\<lparr>start = getStart a, endp = getEnd a, layer = javascript,
                          priority = 1\<rparr>]\<rparr>,
                    forEachChild a) \<and>
            \<lparr>start = getStart a, endp = getEnd a, layer = javascript, priority = 1\<rparr>
              \<in> set (rawRegions final)" if "\<not> declared"
  proof -
    have s: "visitNode sourceText a ctx =
              Some (ctx\<lparr>rawRegions := rawRegions ctx @
                      [\<lparr>start = getStart a, endp = getEnd a, layer = javascript,
                          priority = 1\<rparr>]\<rparr>,
                    forEachChild a)"
      using step iff that by simp
    from stay[OF s] show ?thesis using s by (auto simp: grows_def)
  qed
  show ?thesis using v iff yes no unfolding declared_def by blast
qed

theorem enum_access_order_witness:
  "visitLog enum_then_access_text enum_then_access_tree (\<lparr>rawRegions = [], enumNames = {}\<rparr>, []) =
     Some (\<lparr>rawRegions = [\<lparr>start = 0, endp = 12, layer = typescript, priority = 3\<rparr>,
                          \<lparr>start = 13, endp = 16, layer = typescript, priority = 3\<rparr>],
            enumNames = {''E''}\<rparr>,
           [(enum_then_access_tree, \<lparr>rawRegions = [], enumNames = {}\<rparr>),
            (early_enum, \<lparr>rawRegions = [], enumNames = {}\<rparr>),
            (mkNode ''ExpressionStatement'' 12 13 17 [(''expression'', late_access)],
             \<lparr>rawRegions = [\<lparr>start = 0, endp = 12, layer = typescript, priority = 3\<rparr>],
               enumNames = {''E''}\<rparr>),
            (late_access,
             \<lparr>rawRegions = [\<lparr>start = 0, endp = 12, layer = typescript, priority = 3\<rparr>],
               enumNames = {''E''}\<rparr>),
            (mkNode ''EndOfFileToken'' 17 17 17 [],
             \<lparr>rawRegions = [\<lparr>start = 0, endp = 12, layer = typescript, priority = 3\<rparr>,
                            \<lparr>start = 13, endp = 16, layer = typescript, priority = 3\<rparr>],
               enumNames = {''E''}\<rparr>)]) \<and>
   visitNode enum_then_access_text late_access
     \<lparr>rawRegions = [\<lparr>start = 0, endp = 12, layer = typescript, priority = 3\<rparr>],
       enumNames = {''E''}\<rparr> =
     Some (\<lparr>rawRegions = [\<lparr>start = 0, endp = 12, layer = typescript, priority = 3\<rparr>,
                          \<lparr>start = 13, endp = 16, layer = typescript, priority = 3\<rparr>],
            enumNames = {''E''}\<rparr>, []) \<and>
   classifyDocument (no_comments (\<lambda>_. enum_then_access_tree)) enum_then_access_text =
     Some [\<lparr>start = 0, endp = 12, layer = typescript\<rparr>,
           \<lparr>start = 13, endp = 16, layer = typescript\<rparr>] \<and>
   visitLog access_then_enum_text access_then_enum_tree (\<lparr>rawRegions = [], enumNames = {}\<rparr>, []) =
     Some (\<lparr>rawRegions = [\<lparr>start = 0, endp = 3, layer = javascript, priority = 1\<rparr>,
                          \<lparr>start = 0, endp = 1, layer = javascript, priority = 1\<rparr>,
                          \<lparr>start = 2, endp = 3, layer = javascript, priority = 1\<rparr>,
                          \<lparr>start = 5, endp = 17, layer = typescript, priority = 3\<rparr>],
            enumNames = {''E''}\<rparr>,
           [(access_then_enum_tree, \<lparr>rawRegions = [], enumNames = {}\<rparr>),
            (mkNode ''ExpressionStatement'' 0 0 4 [(''expression'', early_access)],
             \<lparr>rawRegions = [], enumNames = {}\<rparr>),
            (early_access, \<lparr>rawRegions = [], enumNames = {}\<rparr>),
            (mkIdentifier 0 0 1 ''E'',
             \<lparr>rawRegions = [\<lparr>start = 0, endp = 3, layer = javascript, priority = 1\<rparr>],
               enumNames = {}\<rparr>),
            (mkIdentifier 2 2 3 ''A'',
             \<lparr>rawRegions = [\<lparr>start = 0, endp = 3, layer = javascript, priority = 1\<rparr>,
                            \<lparr>start = 0, endp = 1, layer = javascript, priority = 1\<rparr>],
               enumNames = {}\<rparr>),
            (late_enum,
             \<lparr>rawRegions = [\<lparr>start = 0, endp = 3, layer = javascript, priority = 1\<rparr>,
                            \<lparr>start = 0, endp = 1, layer = javascript, priority = 1\<rparr>,
                            \<lparr>start = 2, endp = 3, layer = javascript, priority = 1\<rparr>],
               enumNames = {}\<rparr>),
            (mkNode ''EndOfFileToken'' 17 17 17 [],
             \<lparr>rawRegions = [\<lparr>start = 0, endp = 3, layer = javascript, priority = 1\<rparr>,
                            \<lparr>start = 0, endp = 1, layer = javascript, priority = 1\<rparr>,
                            \<lparr>start = 2, endp = 3, layer = javascript, priority = 1\<rparr>,
                            \<lparr>start = 5, endp = 17, layer = typescript, priority = 3\<rparr>],
               enumNames = {''E''}\<rparr>)]) \<and>
   visitNode access_then_enum_text early_access \<lparr>rawRegions = [], enumNames = {}\<rparr> =
     Some (\<lparr>rawRegions = [\<lparr>start = 0, endp = 3, layer = javascript, priority = 1\<rparr>],
            enumNames = {}\<rparr>,
           forEachChild early_access) \<and>
   classifyDocument (no_comments (\<lambda>_. access_then_enum_tree)) access_then_enum_text =
     Some [\<lparr>start = 0, endp = 3, layer = javascript\<rparr>,
           \<lparr>start = 5, endp = 17, layer = typescript\<rparr>]"
proof -
  define c0 where "c0 = \<lparr>rawRegions = [], enumNames = {}\<rparr>"
  define c1 where "c1 = \<lparr>rawRegions = [\<lparr>start = 0, endp = 12, layer = typescript, priority = 3\<rparr>],
               enumNames = {''E''}\<rparr>"
  define c2 where "c2 = \<lparr>rawRegions = [\<lparr>start = 0, endp = 12, layer = typescript, priority = 3\<rparr>,
                            \<lparr>start = 13, endp = 16, layer = typescript, priority = 3\<rparr>],
               enumNames = {''E''}\<rparr>"
  define calls1 where "calls1 =
           [(enum_then_access_tree, c0),
            (early_enum, c0),
            (mkNode ''ExpressionStatement'' 12 13 17 [(''expression'', late_access)], c1),
            (late_access, c1),
            (mkNode ''EndOfFileToken'' 17 17 17 [], c2)]"
  have w1: "visitLog enum_then_access_text
              (createSourceFile (no_comments (\<lambda>_. enum_then_access_tree)) enum_then_access_text)
              (\<lparr>rawRegions = [], enumNames = {}\<rparr>, []) = Some (c2, calls1)"
    unfolding c0_def c1_def c2_def calls1_def by code_simp
  have k1: "3 < length calls1" "calls1 ! 3 = (late_access, c1)"
    by (simp_all add: calls1_def)
  have a1: "kind late_access = ''PropertyAccessExpression''"
    "get ''expression'' late_access = Some (mkIdentifier 12 13 14 ''E'')"
    "kind (mkIdentifier 12 13 14 ''E'') = ''Identifier''"
    "getStart late_access < getEnd late_access"
    by code_simp+
  have d1: "\<exists>j<3. kind (fst (calls1 ! j)) = ''EnumDeclaration'' \<and>
               (\<exists>nm. get ''name'' (fst (calls1 ! j)) = Some nm \<and>
                     textOf nm = textOf (mkIdentifier 12 13 14 ''E''))"
  proof -
    have "kind (fst (calls1 ! 1)) = ''EnumDeclaration'' \<and>
          get ''name'' (fst (calls1 ! 1)) = Some (mkIdentifier 4 5 6 ''E'') \<and>
          textOf (mkIdentifier 4 5 6 ''E'') = textOf (mkIdentifier 12 13 14 ''E'')"
      unfolding calls1_def by code_simp
    moreover have "(1::nat) < 3" by simp
    ultimately show ?thesis by blast
  qed
  note t1 = enum_access_order[OF w1 k1 a1]
  have s1: "getStart late_access = 13" "getEnd late_access = 16"
    by (simp_all add: late_access_def mkNode_def)
  have r1: "visitNode enum_then_access_text late_access c1 = Some (c2, [])"
  proof -
    have "visitNode enum_then_access_text late_access c1 =
              Some (c1\<lparr>rawRegions := rawRegions c1 @
                      [\<lparr>start = getStart late_access, endp = getEnd late_access,
                          layer = typescript, priority = 3\<rparr>]\<rparr>, [])"
      using t1 d1 by blast
    then show ?thesis by (simp add: s1 c1_def c2_def)
  qed
  have out1: "classifyDocument (no_comments (\<lambda>_. enum_then_access_tree)) enum_then_access_text =
     Some [\<lparr>start = 0, endp = 12, layer = typescript\<rparr>,
           \<lparr>start = 13, endp = 16, layer = typescript\<rparr>]"
    by code_simp
  define d1 where "d1 = \<lparr>rawRegions = [\<lparr>start = 0, endp = 3, layer = javascript, priority = 1\<rparr>],
               enumNames = {}\<rparr>"
  define d2 where "d2 = \<lparr>rawRegions = [\<lparr>start = 0, endp = 3, layer = javascript, priority = 1\<rparr>,
                            \<lparr>start = 0, endp = 1, layer = javascript, priority = 1\<rparr>],
               enumNames = {}\<rparr>"
  define d3 where "d3 = \<lparr>rawRegions = [\<lparr>start = 0, endp = 3, layer = javascript, priority = 1\<rparr>,
                            \<lparr>start = 0, endp = 1, layer = javascript, priority = 1\<rparr>,
                            \<lparr>start = 2, endp = 3, layer = javascript, priority = 1\<rparr>],
               enumNames = {}\<rparr>"
  define final2 where "final2 =
      \<lparr>rawRegions = [\<lparr>start = 0, endp = 3, layer = javascript, priority = 1\<rparr>,
                     \<lparr>start = 0, endp = 1, layer = javascript, priority = 1\<rparr>,
                     \<lparr>start = 2, endp = 3, layer = javascript, priority = 1\<rparr>,
                     \<lparr>start = 5, endp = 17, layer = typescript, priority = 3\<rparr>],
        enumNames = {''E''}\<rparr>"
  define calls2 where "calls2 =
           [(access_then_enum_tree, c0),
            (mkNode ''ExpressionStatement'' 0 0 4 [(''expression'', early_access)], c0),
            (early_access, c0),
            (mkIdentifier 0 0 1 ''E'', d1),
            (mkIdentifier 2 2 3 ''A'', d2),
            (late_enum, d3),
            (mkNode ''EndOfFileToken'' 17 17 17 [], final2)]"
  have w2: "visitLog access_then_enum_text
        (createSourceFile (no_comments (\<lambda>_. access_then_enum_tree)) access_then_enum_text)
        (\<lparr>rawRegions = [], enumNames = {}\<rparr>, []) = Some (final2, calls2)"
    unfolding c0_def d1_def d2_def d3_def final2_def calls2_def by code_simp
  have k2: "calls2 ! 2 = (early_access, c0)" by (simp add: calls2_def)
  have l2: "length calls2 = 7" by (simp add: calls2_def)
  have n2: "\<forall>j<2. kind (fst (calls2 ! j)) \<noteq> ''EnumDeclaration''"
  proof (intro allI impI)
    fix j :: nat assume "j < 2"
    then have "j = 0 \<or> j = 1" by auto
    moreover have "kind (fst (calls2 ! 0)) \<noteq> ''EnumDeclaration''"
      unfolding calls2_def by code_simp
    moreover have "kind (fst (calls2 ! 1)) \<noteq> ''EnumDeclaration''"
      unfolding calls2_def by code_simp
    ultimately show "kind (fst (calls2 ! j)) \<noteq> ''EnumDeclaration''" by auto
  qed
  have k2': "2 < length calls2" using l2 by simp
  have a2: "kind early_access = ''PropertyAccessExpression''"
    "get ''expression'' early_access = Some (mkIdentifier 0 0 1 ''E'')"
    "kind (mkIdentifier 0 0 1 ''E'') = ''Identifier''"
    "getStart early_access < getEnd early_access"
    by code_simp+
  have d2: "\<not> (\<exists>j<2. kind (fst (calls2 ! j)) = ''EnumDeclaration'' \<and>
               (\<exists>nm. get ''name'' (fst (calls2 ! j)) = Some nm \<and>
                     textOf nm = textOf (mkIdentifier 0 0 1 ''E'')))"
    using n2 by blast
  note t2 = enum_access_order[OF w2 k2' k2 a2]
  have s2: "getStart early_access = 0" "getEnd early_access = 3"
    by (simp_all add: early_access_def mkNode_def)
  have r2: "visitNode access_then_enum_text early_access c0 =
     Some (\<lparr>rawRegions = [\<lparr>start = 0, endp = 3, layer = javascript, priority = 1\<rparr>],
            enumNames = {}\<rparr>,
           forEachChild early_access)"
  proof -
    have "visitNode access_then_enum_text early_access c0 =
              Some (c0\<lparr>rawRegions := rawRegions c0 @
                      [\<lparr>start = getStart early_access, endp = getEnd early_access,
                          layer = javascript, priority = 1\<rparr>]\<rparr>, forEachChild early_access)"
      using t2 d2 by blast
    then show ?thesis by (simp add: s2 c0_def)
  qed
  have out2: "classifyDocument (no_comments (\<lambda>_. access_then_enum_tree)) access_then_enum_text =
     Some [\<lparr>start = 0, endp = 3, layer = javascript\<rparr>,
           \<lparr>start = 5, endp = 17, layer = typescript\<rparr>]"
    by code_simp
  have w2': "visitLog access_then_enum_text access_then_enum_tree
      (\<lparr>rawRegions = [], enumNames = {}\<rparr>, []) = Some (final2, calls2)"
    using w2 by (simp add: no_comments_def)
  have w1': "visitLog enum_then_access_text enum_then_access_tree
      (\<lparr>rawRegions = [], enumNames = {}\<rparr>, []) = Some (c2, calls1)"
    using w1 by (simp add: no_comments_def)
  show ?thesis
    using w1' r1 out1 w2' r2 out2
    unfolding c0_def c1_def c2_def calls1_def d1_def d2_def d3_def final2_def calls2_def
    by blast
qed

text \<open>
  C9. \<^verbatim>\<open>classifyDocument\<close> is deterministic, and no state passes from one call to the next.
  The call is taken in a store that holds whatever earlier calls left. Its result does not
  depend on that store: in two stores the same text gives the same result, the result
  of the call taken alone. The call writes to no object that was there before it: it only
  fills the two objects it creates. Hence in every sequence of calls, each in the store
  its predecessors left, two calls on the same text return the same result, whatever
  texts were classified before or between them.
\<close>

theorem classifyDocument_deterministic:
  "fst (classifyDocumentS ts sourceText s) = fst (classifyDocumentS ts sourceText s') \<and>
   fst (classifyDocumentS ts sourceText s) = classifyDocument ts sourceText \<and>
   (\<forall>a<nextRef s. objects (snd (classifyDocumentS ts sourceText s)) a = objects s a) \<and>
   length (fst (runCalls ts texts s)) = length texts \<and>
   (\<forall>i j. i < length texts \<and> j < length texts \<and> texts ! i = texts ! j \<longrightarrow>
      fst (runCalls ts texts s) ! i = fst (runCalls ts texts s) ! j \<and>
      fst (runCalls ts texts s) ! i = classifyDocument ts (texts ! i))"
proof -
  have a: "fst (classifyDocumentS ts sourceText s) = fst (classifyDocumentS ts sourceText s')"
    by (simp add: classifyDocumentS_result)
  have b: "fst (classifyDocumentS ts sourceText s) = classifyDocument ts sourceText"
    by (rule classifyDocumentS_result)
  have c: "\<forall>a<nextRef s. objects (snd (classifyDocumentS ts sourceText s)) a = objects s a"
    using classifyDocumentS_frame by blast
  have d: "length (fst (runCalls ts texts s)) = length texts"
    by (rule runCalls_length)
  have e: "\<forall>i j. i < length texts \<and> j < length texts \<and> texts ! i = texts ! j \<longrightarrow>
      fst (runCalls ts texts s) ! i = fst (runCalls ts texts s) ! j \<and>
      fst (runCalls ts texts s) ! i = classifyDocument ts (texts ! i)"
    by (simp add: runCalls_nth)
  show ?thesis using a b c d e by blast
qed

theorem classifyDocument_deterministic_witness:
  "(1::nat) < nextRef (snd (classifyDocumentS two_documents_ts enum_text empty_store)) \<and>
   objects (snd (classifyDocumentS two_documents_ts enum_text empty_store)) 1 =
     Some (NameSet {''E''}) \<and>
   objects (snd (classifyDocumentS two_documents_ts access_text
                   (snd (classifyDocumentS two_documents_ts enum_text empty_store)))) 1 =
     Some (NameSet {''E''}) \<and>
   fst (classifyDocumentS two_documents_ts access_text
          (snd (classifyDocumentS two_documents_ts enum_text empty_store))) =
     Some [\<lparr>start = 0, endp = 3, layer = javascript\<rparr>] \<and>
   map_option rawRegions
     (visit access_text (createSourceFile two_documents_ts access_text)
        \<lparr>rawRegions = [], enumNames = {''E''}\<rparr>) =
     Some [\<lparr>start = 0, endp = 3, layer = typescript, priority = 3\<rparr>] \<and>
   (0::nat) < length [access_text, enum_text, access_text] \<and>
   (2::nat) < length [access_text, enum_text, access_text] \<and>
   [access_text, enum_text, access_text] ! 0 = [access_text, enum_text, access_text] ! 2 \<and>
   fst (runCalls two_documents_ts [access_text, enum_text, access_text] empty_store) ! 0 =
     fst (runCalls two_documents_ts [access_text, enum_text, access_text] empty_store) ! 2 \<and>
   fst (runCalls two_documents_ts [access_text, enum_text, access_text] empty_store) ! 0 =
     Some [\<lparr>start = 0, endp = 3, layer = javascript\<rparr>] \<and>
   fst (runCalls two_documents_ts [access_text, enum_text, access_text] empty_store) ! 1 =
     Some [\<lparr>start = 0, endp = 12, layer = typescript\<rparr>]"
proof -
  define s1 where "s1 = snd (classifyDocumentS two_documents_ts enum_text empty_store)"
  define texts where "texts = [access_text, enum_text, access_text]"
  have n: "(1::nat) < nextRef s1" unfolding s1_def by code_simp
  have o: "objects s1 1 = Some (NameSet {''E''})" unfolding s1_def by code_simp
  have access: "classifyDocument two_documents_ts access_text =
        Some [\<lparr>start = 0, endp = 3, layer = javascript\<rparr>]"
    by code_simp
  have enum: "classifyDocument two_documents_ts enum_text =
        Some [\<lparr>start = 0, endp = 12, layer = typescript\<rparr>]"
    by code_simp
  have stale: "map_option rawRegions
     (visit access_text (createSourceFile two_documents_ts access_text)
        \<lparr>rawRegions = [], enumNames = {''E''}\<rparr>) =
     Some [\<lparr>start = 0, endp = 3, layer = typescript, priority = 3\<rparr>]"
    by code_simp
  have h0: "(0::nat) < length texts" and h1: "(1::nat) < length texts"
    and h2: "(2::nat) < length texts"
    and h3: "texts ! 0 = texts ! 2" and t0: "texts ! 0 = access_text"
    and t1: "texts ! 1 = enum_text"
    by (simp_all add: texts_def)
  note t = classifyDocument_deterministic[of two_documents_ts access_text s1 empty_store texts]
  have f: "objects (snd (classifyDocumentS two_documents_ts access_text s1)) 1 = objects s1 1"
    using t n by blast
  have g: "fst (classifyDocumentS two_documents_ts access_text s1) =
           classifyDocument two_documents_ts access_text"
    using t by blast
  note u = classifyDocument_deterministic[of two_documents_ts access_text empty_store
      empty_store texts]
  have r: "fst (runCalls two_documents_ts texts empty_store) ! 0 =
           fst (runCalls two_documents_ts texts empty_store) ! 2"
    using u h0 h2 h3 by blast
  have r0: "fst (runCalls two_documents_ts texts empty_store) ! 0 =
            classifyDocument two_documents_ts (texts ! 0)"
    using u h0 by blast
  have "texts ! 1 = texts ! 1" by simp
  then have r1: "fst (runCalls two_documents_ts texts empty_store) ! 1 =
            classifyDocument two_documents_ts (texts ! 1)"
    using u h1 by blast
  have c1: "(1::nat) < nextRef (snd (classifyDocumentS two_documents_ts enum_text empty_store))"
    using n by (simp only: s1_def)
  have c2: "objects (snd (classifyDocumentS two_documents_ts enum_text empty_store)) 1 =
     Some (NameSet {''E''})"
    using o by (simp only: s1_def)
  have c3: "objects (snd (classifyDocumentS two_documents_ts access_text
                   (snd (classifyDocumentS two_documents_ts enum_text empty_store)))) 1 =
     Some (NameSet {''E''})"
    using f o by (simp only: s1_def)
  have c4: "fst (classifyDocumentS two_documents_ts access_text
          (snd (classifyDocumentS two_documents_ts enum_text empty_store))) =
     Some [\<lparr>start = 0, endp = 3, layer = javascript\<rparr>]"
    using g access by (simp only: s1_def)
  have c6: "(0::nat) < length [access_text, enum_text, access_text]"
    and c7: "(2::nat) < length [access_text, enum_text, access_text]"
    and c8: "[access_text, enum_text, access_text] ! 0 = [access_text, enum_text, access_text] ! 2"
    by simp_all
  have c9: "fst (runCalls two_documents_ts [access_text, enum_text, access_text] empty_store) ! 0 =
     fst (runCalls two_documents_ts [access_text, enum_text, access_text] empty_store) ! 2"
    using r by (simp only: texts_def)
  have c10: "fst (runCalls two_documents_ts [access_text, enum_text, access_text] empty_store) ! 0 =
     Some [\<lparr>start = 0, endp = 3, layer = javascript\<rparr>]"
    using r0 t0 access by (simp only: texts_def)
  have c11: "fst (runCalls two_documents_ts [access_text, enum_text, access_text] empty_store) ! 1 =
     Some [\<lparr>start = 0, endp = 12, layer = typescript\<rparr>]"
    using r1 t1 enum by (simp only: texts_def)
  show ?thesis
    by (intro conjI) (fact c1 c2 c3 c4 stale c6 c7 c8 c9 c10 c11)+
qed




end
